theory Spec2Isabelle
  imports Main "HOL-Library.Char_ord" "HOL-Library.List_Lexorder" "HOL-Library.Sublist"
begin

section \<open>Hardcoded colour scanner (scripts/find-hardcoded-colors.py)\<close>

text \<open>
  The script walks the \<^verbatim>\<open>.tsx\<close> files below the application directory, matches four
  regular expressions against every line of every file that is not excluded, collects
  the matches in a dictionary keyed by rule name and file, and prints a report.

  Text is modelled as \<^typ>\<open>string\<close>. The character classes \<^verbatim>\<open>\w\<close>, \<^verbatim>\<open>\d\<close> and
  \<^verbatim>\<open>\s\<close> are given on the ASCII range, where the rule patterns, the Tailwind class
  names they look for and every example of the specification live; a character above
  127 belongs to none of the classes here.
\<close>

subsection \<open>Regular expressions as the script uses them\<close>

datatype cclass = Word | Digit | Space

text \<open>
  \<^verbatim>\<open>\d\<close> is \<^verbatim>\<open>0-9\<close>, \<^verbatim>\<open>\w\<close> is a letter, a digit or the underscore, and
  \<^verbatim>\<open>\s\<close> is Python's whitespace: tab, line feed, vertical tab, form feed, carriage
  return, the four separators \<^verbatim>\<open>0x1c\<close> to \<^verbatim>\<open>0x1f\<close>, and the space.
\<close>

definition is_digit :: "char \<Rightarrow> bool" where
  "is_digit c = (let n = (of_char c :: nat) in 48 \<le> n \<and> n \<le> 57)"

definition is_word :: "char \<Rightarrow> bool" where
  "is_word c = (let n = (of_char c :: nat) in
     (48 \<le> n \<and> n \<le> 57) \<or> (65 \<le> n \<and> n \<le> 90) \<or> (97 \<le> n \<and> n \<le> 122) \<or> n = 95)"

definition is_space :: "char \<Rightarrow> bool" where
  "is_space c = (let n = (of_char c :: nat) in
     (9 \<le> n \<and> n \<le> 13) \<or> (28 \<le> n \<and> n \<le> 31) \<or> n = 32)"

fun in_class :: "cclass \<Rightarrow> char \<Rightarrow> bool" where
  "in_class Word c = is_word c"
| "in_class Digit c = is_digit c"
| "in_class Space c = is_space c"

text \<open>
  The fragment of Python's \<^verbatim>\<open>re\<close> syntax that the two tables of the script are
  written in: literal characters, the three classes, a greedy \<^verbatim>\<open>+\<close> on a class,
  concatenation, and alternation inside a non-capturing group.
\<close>

datatype regex =
    Eps
  | Lit char
  | Cls cclass
  | Plus cclass
  | Seq regex regex
  | Alt regex regex

fun lit :: "string \<Rightarrow> regex" where
  "lit [] = Eps"
| "lit (c # cs) = Seq (Lit c) (lit cs)"

text \<open>
  \<open>plus_rests k s\<close> lists what is left of \<open>s\<close> after \<^verbatim>\<open>k+\<close> has taken a run of
  characters from its front, longest run first: the order in which a greedy
  quantifier gives characters back when the rest of the pattern fails.
\<close>

fun plus_rests :: "cclass \<Rightarrow> string \<Rightarrow> string list" where
  "plus_rests k [] = []"
| "plus_rests k (c # cs) = (if in_class k c then plus_rests k cs @ [cs] else [])"

text \<open>
  \<open>rmatch r s\<close> lists the remainders of \<open>s\<close> after every way of matching \<open>r\<close> at the
  front of \<open>s\<close>, in the order in which the backtracking matcher tries them. The
  first one is the match that \<^verbatim>\<open>re\<close> reports at this position.
\<close>

fun rmatch :: "regex \<Rightarrow> string \<Rightarrow> string list" where
  "rmatch Eps s = [s]"
| "rmatch (Lit c) s = (case s of [] \<Rightarrow> [] | x # xs \<Rightarrow> if x = c then [xs] else [])"
| "rmatch (Cls k) s = (case s of [] \<Rightarrow> [] | x # xs \<Rightarrow> if in_class k x then [xs] else [])"
| "rmatch (Plus k) s = plus_rests k s"
| "rmatch (Seq a b) s = concat (map (rmatch b) (rmatch a s))"
| "rmatch (Alt a b) s = rmatch a s @ rmatch b s"

definition match_here :: "regex \<Rightarrow> string \<Rightarrow> string option" where
  "match_here r s =
     (case rmatch r s of [] \<Rightarrow> None | rest # _ \<Rightarrow> Some (take (length s - length rest) s))"

text \<open>
  \<^verbatim>\<open>re.search(pattern, s)\<close> used as a truth value: some position of \<open>s\<close> has a match.
\<close>

fun search :: "regex \<Rightarrow> string \<Rightarrow> bool" where
  "search r [] = (case rmatch r [] of [] \<Rightarrow> False | _ # _ \<Rightarrow> True)"
| "search r (c # cs) = (case rmatch r (c # cs) of [] \<Rightarrow> search r cs | _ # _ \<Rightarrow> True)"

text \<open>
  \<^verbatim>\<open>re.findall(pattern, s)\<close> for a pattern without capturing groups: the matched
  texts, leftmost first, each search resuming where the previous match ended. An
  empty match is reported and the scan moves on by one character; no pattern of the
  rule table can match the empty string (each starts with a literal), so that branch
  is not taken by the scanner.
\<close>

function findall :: "regex \<Rightarrow> string \<Rightarrow> string list" where
  "findall r s =
     (case match_here r s of
        None \<Rightarrow> (case s of [] \<Rightarrow> [] | _ # t \<Rightarrow> findall r t)
      | Some m \<Rightarrow>
          (if m = [] then [] # (case s of [] \<Rightarrow> [] | _ # t \<Rightarrow> findall r t)
           else m # findall r (drop (length m) s)))"
  by pat_completeness auto
termination
proof (relation "measure (\<lambda>(r, s). length s)")
  show "wf (measure (\<lambda>(r, s). length s))" by simp
next
  fix r :: regex and s :: string and c t
  assume "s = c # t"
  then show "((r, t), (r, s)) \<in> measure (\<lambda>(r, s). length s)" by simp
next
  fix r :: regex and s :: string and m c t
  assume "s = c # t"
  then show "((r, t), (r, s)) \<in> measure (\<lambda>(r, s). length s)" by simp
next
  fix r :: regex and s :: string and m
  assume m: "match_here r s = Some m" and ne: "m \<noteq> []"
  from m have "m = take (length m) s"
    by (auto simp: match_here_def split: list.splits)
  with ne have "s \<noteq> []" by auto
  with ne show "((r, drop (length m) s), (r, s)) \<in> measure (\<lambda>(r, s). length s)"
    by (cases s) auto
qed

declare findall.simps [simp del]

text \<open>The substring test \<^verbatim>\<open>needle in s\<close>.\<close>

fun contains :: "string \<Rightarrow> string \<Rightarrow> bool" where
  "contains needle [] = (needle = [])"
| "contains needle (c # cs) = (take (length needle) (c # cs) = needle \<or> contains needle cs)"

subsection \<open>The rule table and the exclusion list\<close>

text \<open>
  \<^verbatim>\<open>PATTERNS\<close>, in the order of the dictionary literal (the order in which
  \<^verbatim>\<open>PATTERNS.items()\<close> yields the rules), and \<^verbatim>\<open>IGNORE_PATTERNS\<close>.
\<close>

definition delim :: regex where
  "delim = Alt (Cls Space) (Alt (Lit (CHR 0x22)) (Alt (Lit (CHR 0x60)) (Lit CHR ''/'')))"

definition bg50 :: regex where
  "bg50 = Seq (lit ''bg-'') (Seq (Plus Word) (Seq (lit ''-50'') delim))"

definition opacity_tail :: regex where
  "opacity_tail =
     Seq (Plus Word) (Seq (Lit CHR ''-'') (Seq (Plus Digit) (Seq (Lit CHR ''/'') (Plus Digit))))"

definition dark_bg :: regex where
  "dark_bg = Seq (lit ''dark:bg-'') opacity_tail"

definition dark_hover_bg :: regex where
  "dark_hover_bg = Seq (lit ''dark:hover:bg-'') opacity_tail"

definition dark_border :: regex where
  "dark_border = Seq (lit ''dark:border-'') opacity_tail"

definition PATTERNS :: "(string \<times> regex) list" where
  "PATTERNS =
     [(''bg-*-50 (use -100)'', bg50),
      (''dark:bg-*-N/opacity'', dark_bg),
      (''dark:hover:bg-*-N/opacity'', dark_hover_bg),
      (''dark:border-*-N/opacity'', dark_border)]"

definition IGNORE_PATTERNS :: "regex list" where
  "IGNORE_PATTERNS =
     [lit ''node_modules'', lit ''.next'', lit ''dist'', lit ''lib/colors.ts'',
      lit ''tailwind.config'']"

fun any_search :: "regex list \<Rightarrow> string \<Rightarrow> bool" where
  "any_search [] filepath = False"
| "any_search (pattern # rest) filepath =
     (if search pattern filepath then True else any_search rest filepath)"

definition should_ignore :: "string \<Rightarrow> bool" where
  "should_ignore filepath = any_search IGNORE_PATTERNS filepath"

subsection \<open>Dictionaries, lines and the console\<close>

text \<open>
  A Python dictionary keeps its keys in insertion order: an association list with
  distinct keys. \<open>dict_set\<close> is \<^verbatim>\<open>d[k] = v\<close>; \<open>dict_append\<close> is
  \<^verbatim>\<open>d[k].append(x)\<close> on a \<^verbatim>\<open>defaultdict(list)\<close>, which creates the key on first
  use; \<open>dict_get_default\<close> is the read \<^verbatim>\<open>d[k]\<close> of a \<^verbatim>\<open>defaultdict\<close> whose
  factory gives the empty container.
\<close>

fun dict_set :: "'k \<Rightarrow> 'v \<Rightarrow> ('k \<times> 'v) list \<Rightarrow> ('k \<times> 'v) list" where
  "dict_set k v [] = [(k, v)]"
| "dict_set k v ((k', v') # d) =
     (if k = k' then (k', v) # d else (k', v') # dict_set k v d)"

fun dict_append :: "'k \<Rightarrow> 'v \<Rightarrow> ('k \<times> 'v list) list \<Rightarrow> ('k \<times> 'v list) list" where
  "dict_append k x [] = [(k, [x])]"
| "dict_append k x ((k', xs) # d) =
     (if k = k' then (k', xs @ [x]) # d else (k', xs) # dict_append k x d)"

definition dict_get_default :: "('k \<times> 'v list) list \<Rightarrow> 'k \<Rightarrow> 'v list" where
  "dict_get_default d k = (case map_of d k of None \<Rightarrow> [] | Some v \<Rightarrow> v)"

text \<open>
  \<^verbatim>\<open>content.split('\n')\<close>: always at least one line; a final newline gives a last,
  empty line.
\<close>

fun split_lines :: "string \<Rightarrow> string list" where
  "split_lines [] = [[]]"
| "split_lines (c # cs) =
     (if c = CHR 0x0A then [] # split_lines cs
      else (case split_lines cs of [] \<Rightarrow> [[c]] | l # ls \<Rightarrow> (c # l) # ls))"

definition strip :: "string \<Rightarrow> string" where
  "strip s = rev (dropWhile is_space (rev (dropWhile is_space s)))"

text \<open>Decimal rendering of a count, as an f-string prints an \<^verbatim>\<open>int\<close> that is not negative.\<close>

fun str_nat :: "nat \<Rightarrow> string" where
  "str_nat n =
     (if n < 10 then [char_of (48 + n)] else str_nat (n div 10) @ [char_of (48 + n mod 10)])"

declare str_nat.simps [simp del]

text \<open>
  The two output streams of the process. \<^verbatim>\<open>print(x)\<close> with no \<^verbatim>\<open>file=\<close> argument
  writes to standard output; one entry of the list is the text of one call.
\<close>

record console =
  stdout :: "string list"
  stderr :: "string list"

definition print :: "string \<Rightarrow> console \<Rightarrow> console" where
  "print s con = con\<lparr>stdout := stdout con @ [s]\<rparr>"

definition prints :: "string list \<Rightarrow> console \<Rightarrow> console" where
  "prints ls con = fold print ls con"

subsection \<open>The file scanner\<close>

record match_rec =
  m_line :: nat
  m_match :: string
  m_context :: string

type_synonym scan_result = "(string \<times> match_rec list) list"

text \<open>The innermost loop: the matches of one rule on one line, with the focus-ring exception.\<close>

fun record_matches ::
  "nat \<Rightarrow> string \<Rightarrow> string \<Rightarrow> string list \<Rightarrow> scan_result \<Rightarrow> scan_result" where
  "record_matches line_num line pattern_name [] results = results"
| "record_matches line_num line pattern_name (m # matches) results =
     (if contains ''focus:ring'' line \<and> contains ''-900/50'' m
      then record_matches line_num line pattern_name matches results
      else record_matches line_num line pattern_name matches
             (dict_append pattern_name
                \<lparr>m_line = line_num, m_match = m, m_context = take 100 (strip line)\<rparr> results))"

fun scan_rules :: "(string \<times> regex) list \<Rightarrow> nat \<Rightarrow> string \<Rightarrow> scan_result \<Rightarrow> scan_result" where
  "scan_rules [] line_num line results = results"
| "scan_rules ((pattern_name, regex) # rules) line_num line results =
     scan_rules rules line_num line
       (record_matches line_num line pattern_name (findall regex line) results)"

text \<open>\<^verbatim>\<open>for line_num, line in enumerate(lines, 1)\<close>, the counter passed along.\<close>

fun scan_lines :: "nat \<Rightarrow> string list \<Rightarrow> scan_result \<Rightarrow> scan_result" where
  "scan_lines line_num [] results = results"
| "scan_lines line_num (line # lines) results =
     scan_lines (Suc line_num) lines (scan_rules PATTERNS line_num line results)"

text \<open>
  Reading a file either raises, with a message, or gives its text: the file system
  is a function from the path to \<open>Inl message\<close> or \<open>Inr content\<close>. The handler of
  \<open>find_patterns_in_file\<close> prints one line and the function returns the dictionary,
  which is still empty when the read is what failed.
\<close>

definition find_patterns_in_file ::
  "(string \<Rightarrow> string + string) \<Rightarrow> string \<Rightarrow> console \<Rightarrow> scan_result \<times> console" where
  "find_patterns_in_file read_text filepath con =
     (case read_text filepath of
        Inl e \<Rightarrow> ([], print (''Error reading '' @ filepath @ '': '' @ e) con)
      | Inr content \<Rightarrow> (scan_lines 1 (split_lines content) [], con))"

subsection \<open>The walk over the tree and the report\<close>

type_synonym aggregate = "(string \<times> (string \<times> match_rec list) list) list"

text \<open>
  \<^verbatim>\<open>all_results[pattern_name][str(rel_path)] = matches; total_issues += len(matches)\<close>
  for every entry of one file's result.
\<close>

fun merge_results :: "string \<Rightarrow> scan_result \<Rightarrow> aggregate \<times> nat \<Rightarrow> aggregate \<times> nat" where
  "merge_results rel_path [] acc = acc"
| "merge_results rel_path ((pattern_name, matches) # results) (all_results, total_issues) =
     merge_results rel_path results
       (dict_set pattern_name
          (dict_set rel_path matches (dict_get_default all_results pattern_name)) all_results,
        total_issues + length matches)"

text \<open>
  The files that \<^verbatim>\<open>APP_DIR.rglob("*.tsx")\<close> yields are given by their paths relative
  to \<^verbatim>\<open>APP_DIR.parent\<close>, in traversal order; \<open>root\<close> is the text that precedes that
  relative path in \<^verbatim>\<open>str(tsx_file)\<close>, so that \<open>root @ rel_path\<close> is the path the
  exclusion list is tested on and the file is read from.
\<close>

fun walk ::
  "string \<Rightarrow> (string \<Rightarrow> string + string) \<Rightarrow> string list \<Rightarrow> aggregate \<times> nat \<times> console
     \<Rightarrow> aggregate \<times> nat \<times> console" where
  "walk root read_text [] st = st"
| "walk root read_text (rel_path # tsx_files) (all_results, total_issues, con) =
     (if should_ignore (root @ rel_path)
      then walk root read_text tsx_files (all_results, total_issues, con)
      else
        (case find_patterns_in_file read_text (root @ rel_path) con of
           (results, con') \<Rightarrow>
             (if results \<noteq> []
              then (case merge_results rel_path results (all_results, total_issues) of
                      (all_results', total_issues') \<Rightarrow>
                        walk root read_text tsx_files (all_results', total_issues', con'))
              else walk root read_text tsx_files (all_results, total_issues, con'))))"

text \<open>
  The reporter, as the list of the texts it prints. \<^verbatim>\<open>sorted(all_results.items())\<close> and
  \<^verbatim>\<open>sorted(files.items())\<close> sort pairs whose first components are the keys of a
  dictionary, hence distinct: the order is that of the keys, \<open>sort_key fst\<close>. Python
  compares strings character by character by code point, a proper prefix first, which
  is the lexicographic order on \<^typ>\<open>string\<close> over the order of \<^typ>\<open>char\<close>.
\<close>

definition rule_line :: string where
  "rule_line = replicate 70 CHR ''=''"

definition match_count :: "(string \<times> match_rec list) list \<Rightarrow> nat" where
  "match_count files = sum_list (map (\<lambda>(filepath, matches). length matches) files)"

definition match_line :: "match_rec \<Rightarrow> string" where
  "match_line m = ''    Line '' @ str_nat (m_line m) @ '': '' @ m_match m"

definition file_lines :: "string \<times> match_rec list \<Rightarrow> string list" where
  "file_lines = (\<lambda>(filepath, matches).
     [CHR 0x0A # ''  '' @ filepath @ '':''] @
     map match_line (take 5 matches) @
     (if length matches > 5
      then [''    ... and '' @ str_nat (length matches - 5) @ '' more''] else []))"

definition section_lines :: "string \<times> (string \<times> match_rec list) list \<Rightarrow> string list" where
  "section_lines = (\<lambda>(pattern_name, files).
     [CHR 0x0A # rule_line,
      ''PATTERN: '' @ pattern_name,
      ''Files: '' @ str_nat (length files) @ '' | Occurrences: '' @ str_nat (match_count files),
      rule_line] @
     concat (map file_lines (sort_key fst files)))"

definition report_lines :: "aggregate \<Rightarrow> string list" where
  "report_lines all_results = concat (map section_lines (sort_key fst all_results))"

definition rule_summary :: "string \<times> (string \<times> match_rec list) list \<Rightarrow> string" where
  "rule_summary = (\<lambda>(pattern_name, files).
     ''  '' @ pattern_name @ '': '' @ str_nat (match_count files) @ '' occurrences in '' @
     str_nat (length files) @ '' files'')"

definition summary_lines :: "aggregate \<Rightarrow> nat \<Rightarrow> string list" where
  "summary_lines all_results total_issues =
     [CHR 0x0A # rule_line, ''SUMMARY'', rule_line,
      ''Total issues found: '' @ str_nat total_issues, []] @
     map rule_summary (sort_key fst all_results) @
     [[],
      ''Fix these by importing from @/lib/colors:'',
      ''  - softBgColors, verySoftBgColors for backgrounds'',
      ''  - hoverBgColors for hover states'',
      ''  - infoBannerColors for info boxes'',
      ''  - alertColors for alerts/messages'',
      []]"

text \<open>
  \<open>main\<close>: the header, the walk (which may print error lines), the sections of the
  report, the summary. Its value is the console when the script ends.
\<close>

definition header_lines :: "string list" where
  "header_lines = [rule_line, ''HARDCODED COLOR SCANNER'', rule_line, []]"

definition main :: "string \<Rightarrow> (string \<Rightarrow> string + string) \<Rightarrow> string list \<Rightarrow> console" where
  "main root read_text tsx_files =
     (case walk root read_text tsx_files
             ([], 0, prints header_lines \<lparr>stdout = [], stderr = []\<rparr>) of
        (all_results, total_issues, con) \<Rightarrow>
          prints (summary_lines all_results total_issues) (prints (report_lines all_results) con))"

section \<open>Auxiliary definitions\<close>

subsection \<open>What a scan keeps and what a walk counts\<close>

text \<open>
  \<open>kept n line ms\<close> is the list of records that the innermost loop appends for the
  matches \<open>ms\<close> of one rule on line \<open>n\<close>; \<open>kept_lines rx n lines\<close> is what the scan
  of \<open>lines\<close>, numbered from \<open>n\<close>, appends for the rule with pattern \<open>rx\<close>. That the
  scanner computes exactly these lists is proved below (\<open>get_scan_lines\<close>).
\<close>

definition kept :: "nat \<Rightarrow> string \<Rightarrow> string list \<Rightarrow> match_rec list" where
  "kept line_num line ms =
     map (\<lambda>m. \<lparr>m_line = line_num, m_match = m, m_context = take 100 (strip line)\<rparr>)
       (filter (\<lambda>m. \<not> (contains ''focus:ring'' line \<and> contains ''-900/50'' m)) ms)"

fun kept_lines :: "regex \<Rightarrow> nat \<Rightarrow> string list \<Rightarrow> match_rec list" where
  "kept_lines rx n [] = []"
| "kept_lines rx n (l # ls) = kept n l (findall rx l) @ kept_lines rx (Suc n) ls"

text \<open>An aggregate without empty entries: every rule has a file, every file a match.\<close>

definition agg_ok :: "aggregate \<Rightarrow> bool" where
  "agg_ok all_results =
     list_all (\<lambda>(name, files). files \<noteq> [] \<and> [] \<notin> set (map snd files)) all_results"

text \<open>The number of matches held by an aggregate: over all rules, over all files.\<close>

definition aggregate_count :: "aggregate \<Rightarrow> nat" where
  "aggregate_count all_results =
     sum_list (map (\<lambda>(name, files).
       sum_list (map (\<lambda>(filepath, matches). length matches) files)) all_results)"

text \<open>
  The error lines that a walk prints, in order: one for each file that is not excluded
  and cannot be read.
\<close>

definition error_lines :: "string \<Rightarrow> (string \<Rightarrow> string + string) \<Rightarrow> string list \<Rightarrow> string list" where
  "error_lines root read_text tsx_files =
     concat (map (\<lambda>rel_path.
        if should_ignore (root @ rel_path) then []
        else (case read_text (root @ rel_path) of
                Inl e \<Rightarrow> [''Error reading '' @ root @ rel_path @ '': '' @ e]
              | Inr content \<Rightarrow> [])) tsx_files)"

subsection \<open>The language of a pattern\<close>

text \<open>
  The texts that a pattern can match as a whole; it says what shape a match of a rule
  has.
\<close>

fun lang :: "regex \<Rightarrow> string set" where
  "lang Eps = {[]}"
| "lang (Lit c) = {[c]}"
| "lang (Cls k) = {[c] | c. in_class k c}"
| "lang (Plus k) = {w. w \<noteq> [] \<and> list_all (in_class k) w}"
| "lang (Seq a b) = {u @ v | u v. u \<in> lang a \<and> v \<in> lang b}"
| "lang (Alt a b) = lang a \<union> lang b"

subsection \<open>Reading the report back\<close>





subsection \<open>Example inputs\<close>

text \<open>
  A tree of three files below \<^verbatim>\<open>/repo/app\<close>: one that cannot be read, one under a
  \<^verbatim>\<open>dist\<close> directory, and one with two hits on its only line; and the same tree with
  other text in the file under \<^verbatim>\<open>dist\<close>.
\<close>

definition example_read :: "string \<Rightarrow> string + string" where
  "example_read p =
     (if p = ''/repo/app/a.tsx'' then Inr ''dark:bg-blue-900/50 bg-x-50/''
      else if p = ''/repo/app/dist/c.tsx'' then Inr ''dark:border-red-500/20''
      else Inl ''Permission denied'')"


definition example_files :: "string list" where
  "example_files = [''app/b.tsx'', ''app/dist/c.tsx'', ''app/a.tsx'']"

definition con0 :: console where
  "con0 = \<lparr>stdout = [], stderr = []\<rparr>"

text \<open>
  The line of the specification's first example (\<^verbatim>\<open>className="bg-red-50 p-2"\<close>) and a
  file that has it as its second line.
\<close>

definition example_line :: string where
  "example_line = ''className='' @ [CHR 0x22] @ ''bg-red-50 p-2'' @ [CHR 0x22]"

definition example_page :: string where
  "example_page = ''import x'' @ [CHR 0x0A] @ example_line @ [CHR 0x0A]"

definition page_read :: "string \<Rightarrow> string + string" where
  "page_read p = (if p = ''/repo/app/page.tsx'' then Inr example_page else Inl ''No such file'')"

text \<open>
  The second and third example: a file with the dark-mode background on its second
  line; the two files of the focus-ring example; and a line that carries the focus-ring
  marker next to two dark-mode backgrounds.
\<close>

definition dark_line :: string where
  "dark_line = ''dark:bg-blue-900/50''"

definition dark_page :: string where
  "dark_page = ''<div'' @ [CHR 0x0A] @ dark_line"

definition dark_read :: "string \<Rightarrow> string + string" where
  "dark_read p = (if p = ''/repo/app/dark.tsx'' then Inr dark_page else Inl ''No such file'')"

definition ring_only :: string where
  "ring_only = ''focus:ring-blue-900/50''"

definition hover_line :: string where
  "hover_line = ''dark:hover:bg-blue-900/50''"

definition ring_line :: string where
  "ring_line = ''focus:ring-2 dark:bg-blue-900/50 dark:bg-red-800/30''"

definition ring_read :: "string \<Rightarrow> string + string" where
  "ring_read p =
     (if p = ''/repo/app/ring.tsx'' then Inr ring_only
      else if p = ''/repo/app/hover.tsx'' then Inr hover_line
      else if p = ''/repo/app/both.tsx'' then Inr ring_line
      else Inl ''No such file'')"



section \<open>Properties\<close>

subsection \<open>Dictionaries built by the scanner\<close>

lemma get_dict_append:
  "dict_get_default (dict_append k x d) k' =
     (if k' = k then dict_get_default d k @ [x] else dict_get_default d k')"
  by (induction d) (auto simp: dict_get_default_def)

lemma keys_dict_append:
  "map fst (dict_append k x d) = (if k \<in> set (map fst d) then map fst d else map fst d @ [k])"
  by (induction d) (simp_all, force)

lemma distinct_dict_append:
  "distinct (map fst d) \<Longrightarrow> distinct (map fst (dict_append k x d))"
  by (simp add: keys_dict_append)

lemma vals_dict_append:
  "[] \<notin> set (map snd d) \<Longrightarrow> [] \<notin> set (map snd (dict_append k x d))"
  by (induction k x d rule: dict_append.induct) simp_all

lemma kept_Cons:
  "kept n line (m # ms) =
     (if contains ''focus:ring'' line \<and> contains ''-900/50'' m then kept n line ms
      else \<lparr>m_line = n, m_match = m, m_context = take 100 (strip line)\<rparr> # kept n line ms)"
  by (simp add: kept_def)

lemma kept_Nil: "kept n line [] = []"
  by (simp add: kept_def)

lemma get_record_matches_same:
  "dict_get_default (record_matches n line name ms res) name =
     dict_get_default res name @ kept n line ms"
  by (induction ms arbitrary: res) (simp_all add: kept_Cons kept_Nil get_dict_append)

lemma get_record_matches_other:
  "name' \<noteq> name \<Longrightarrow>
   dict_get_default (record_matches n line name ms res) name' = dict_get_default res name'"
  by (induction ms arbitrary: res) (simp_all add: get_dict_append)

lemma distinct_record_matches:
  "distinct (map fst res) \<Longrightarrow> distinct (map fst (record_matches n line name ms res))"
  by (induction ms arbitrary: res) (simp_all add: distinct_dict_append)

lemma vals_record_matches:
  "[] \<notin> set (map snd res) \<Longrightarrow> [] \<notin> set (map snd (record_matches n line name ms res))"
  by (induction ms arbitrary: res) (simp_all add: vals_dict_append del: set_map)

lemma distinct_scan_rules:
  "distinct (map fst res) \<Longrightarrow> distinct (map fst (scan_rules rules n line res))"
  by (induction rules n line res rule: scan_rules.induct) (simp_all add: distinct_record_matches)

lemma vals_scan_rules:
  "[] \<notin> set (map snd res) \<Longrightarrow> [] \<notin> set (map snd (scan_rules rules n line res))"
  by (induction rules n line res rule: scan_rules.induct)
     (simp_all add: vals_record_matches del: set_map)

lemma distinct_scan_lines:
  "distinct (map fst res) \<Longrightarrow> distinct (map fst (scan_lines n lines res))"
  by (induction lines arbitrary: n res) (simp_all add: distinct_scan_rules)

lemma vals_scan_lines:
  "[] \<notin> set (map snd res) \<Longrightarrow> [] \<notin> set (map snd (scan_lines n lines res))"
  by (induction lines arbitrary: n res) (simp_all add: vals_scan_rules del: set_map)

lemma PATTERNS_cases:
  "(name, rx) \<in> set PATTERNS \<Longrightarrow>
     (name = ''bg-*-50 (use -100)'' \<and> rx = bg50) \<or>
     (name = ''dark:bg-*-N/opacity'' \<and> rx = dark_bg) \<or>
     (name = ''dark:hover:bg-*-N/opacity'' \<and> rx = dark_hover_bg) \<or>
     (name = ''dark:border-*-N/opacity'' \<and> rx = dark_border)"
  by (simp add: PATTERNS_def)

lemma get_scan_rules_PATTERNS:
  assumes "(name, rx) \<in> set PATTERNS"
  shows "dict_get_default (scan_rules PATTERNS n line res) name =
     dict_get_default res name @ kept n line (findall rx line)"
  using PATTERNS_cases [OF assms]
  by (elim disjE conjE)
     (simp_all add: PATTERNS_def get_record_matches_same get_record_matches_other)

lemma get_scan_lines:
  "(name, rx) \<in> set PATTERNS \<Longrightarrow>
   dict_get_default (scan_lines n lines res) name =
     dict_get_default res name @ kept_lines rx n lines"
  by (induction lines arbitrary: n res) (simp_all add: get_scan_rules_PATTERNS)

lemma keys_record_matches:
  "set (map fst (record_matches n line name ms res)) \<subseteq> insert name (set (map fst res))"
proof (induction ms arbitrary: res)
  case Nil
  show ?case by auto
next
  case (Cons m ms)
  have "set (map fst (dict_append name x res)) \<subseteq> insert name (set (map fst res))" for x
    by (simp add: keys_dict_append del: set_map) auto
  with Cons [of res] Cons [of "dict_append name _ res"] show ?case
    by (simp del: set_map) blast
qed

lemma keys_scan_rules:
  "set (map fst (scan_rules rules n line res)) \<subseteq> set (map fst rules) \<union> set (map fst res)"
proof (induction rules n line res rule: scan_rules.induct)
  case (1 n line res)
  show ?case by simp
next
  case (2 pattern_name regex rules n line res)
  with keys_record_matches [of n line pattern_name "findall regex line" res]
  show ?case by (simp del: set_map) blast
qed

lemma keys_scan_lines:
  "set (map fst (scan_lines n lines res)) \<subseteq> set (map fst PATTERNS) \<union> set (map fst res)"
proof (induction lines arbitrary: n res)
  case Nil
  show ?case by simp
next
  case (Cons l ls)
  from Cons [of "Suc n" "scan_rules PATTERNS n l res"] keys_scan_rules [of PATTERNS n l res]
  show ?case by (simp del: set_map) blast
qed


lemma kept_lines_line:
  "m \<in> set (kept_lines rx n lines) \<Longrightarrow>
     n \<le> m_line m \<and> m_line m < n + length lines \<and>
     m \<in> set (kept (m_line m) (lines ! (m_line m - n)) (findall rx (lines ! (m_line m - n))))"
proof (induction lines arbitrary: n)
  case Nil
  then show ?case by simp
next
  case (Cons l ls)
  from Cons.prems consider
    (here) "m \<in> set (kept n l (findall rx l))" | (later) "m \<in> set (kept_lines rx (Suc n) ls)"
    by auto
  then show ?case
  proof cases
    case here
    then have "m_line m = n" by (auto simp: kept_def)
    with here show ?thesis by simp
  next
    case later
    from Cons.IH [OF later] show ?thesis
      by (auto simp: Suc_diff_le)
  qed
qed

lemma filter_kept_other:
  "k \<noteq> n \<Longrightarrow> filter (\<lambda>m. m_line m = k) (kept n l ms) = []"
  by (simp add: kept_def filter_map o_def)

lemma filter_kept_same:
  "filter (\<lambda>m. m_line m = n) (kept n l ms) = kept n l ms"
  by (simp add: kept_def filter_map o_def)

lemma filter_kept_lines:
  "i < length lines \<Longrightarrow>
   filter (\<lambda>m. m_line m = n + i) (kept_lines rx n lines) =
     kept (n + i) (lines ! i) (findall rx (lines ! i))"
proof (induction lines arbitrary: n i)
  case Nil
  then show ?case by simp
next
  case (Cons l ls)
  show ?case
  proof (cases i)
    case 0
    have "Suc n \<le> m_line m" if "m \<in> set (kept_lines rx (Suc n) ls)" for m
      using kept_lines_line [OF that] by simp
    then have "filter (\<lambda>m. m_line m = n) (kept_lines rx (Suc n) ls) = []"
      by (fastforce simp: filter_empty_conv)
    with 0 show ?thesis by (simp add: filter_kept_same)
  next
    case (Suc j)
    with Cons.prems have "j < length ls" by simp
    from Cons.IH [OF this, of "Suc n"] Suc show ?thesis
      by (simp add: filter_kept_other)
  qed
qed

subsection \<open>No empty entry is stored\<close>

lemma set_dict_set: "set (dict_set k v d) \<subseteq> insert (k, v) (set d)"
  by (induction k v d rule: dict_set.induct) auto

lemma dict_set_nonempty: "dict_set k v d \<noteq> []"
  by (induction k v d rule: dict_set.induct) simp_all

lemma get_default_mem:
  "dict_get_default d k \<noteq> [] \<Longrightarrow> (k, dict_get_default d k) \<in> set d"
  by (auto simp: dict_get_default_def split: option.splits dest: map_of_SomeD)

lemma agg_ok_get:
  "agg_ok all_results \<Longrightarrow> [] \<notin> set (map snd (dict_get_default all_results name))"
proof (cases "dict_get_default all_results name = []")
  case True
  then show ?thesis by simp
next
  case False
  assume "agg_ok all_results"
  with get_default_mem [OF False] show ?thesis
    by (auto simp: agg_ok_def list_all_iff)
qed

lemma agg_ok_dict_set:
  assumes "agg_ok all_results" "ms \<noteq> []"
  shows "agg_ok (dict_set name (dict_set rel ms (dict_get_default all_results name)) all_results)"
proof -
  let ?inner = "dict_set rel ms (dict_get_default all_results name)"
  have "set (map snd ?inner) \<subseteq> insert ms (set (map snd (dict_get_default all_results name)))"
    using set_dict_set [of rel ms "dict_get_default all_results name"] by auto
  with agg_ok_get [OF assms(1), of name] assms(2) have inner: "[] \<notin> set (map snd ?inner)"
    by (auto simp del: set_map)
  have ne: "?inner \<noteq> []" by (rule dict_set_nonempty)
  show ?thesis
    unfolding agg_ok_def list_all_iff
  proof
    fix x
    assume "x \<in> set (dict_set name ?inner all_results)"
    with set_dict_set [of name ?inner all_results]
    have "x = (name, ?inner) \<or> x \<in> set all_results" by auto
    then show "case x of (name, files) \<Rightarrow> files \<noteq> [] \<and> [] \<notin> set (map snd files)"
    proof
      assume "x = (name, ?inner)"
      with inner ne show ?thesis by (simp del: set_map)
    next
      assume "x \<in> set all_results"
      with assms(1) show ?thesis by (simp add: agg_ok_def list_all_iff del: set_map)
    qed
  qed
qed

lemma agg_ok_merge_results:
  "agg_ok all_results \<Longrightarrow> [] \<notin> set (map snd results) \<Longrightarrow>
   agg_ok (fst (merge_results rel results (all_results, tot)))"
proof (induction results arbitrary: all_results tot)
  case Nil
  then show ?case by simp
next
  case (Cons r results)
  obtain pattern_name matches where r: "r = (pattern_name, matches)" by (cases r)
  from Cons.prems r have ne: "matches \<noteq> []" and rest: "[] \<notin> set (map snd results)"
    by auto
  from Cons.IH [OF agg_ok_dict_set [OF Cons.prems(1) ne] rest]
  show ?case by (simp add: r)
qed

lemma vals_find_patterns:
  "[] \<notin> set (map snd (fst (find_patterns_in_file read_text filepath con)))"
  by (cases "read_text filepath")
     (simp_all add: find_patterns_in_file_def vals_scan_lines del: set_map)

lemma agg_ok_walk:
  "agg_ok all_results \<Longrightarrow> agg_ok (fst (walk root read_text tsx_files (all_results, tot, con)))"
proof (induction tsx_files arbitrary: all_results tot con)
  case Nil
  then show ?case by simp
next
  case (Cons rel rest)
  obtain results con' where f: "find_patterns_in_file read_text (root @ rel) con = (results, con')"
    by (cases "find_patterns_in_file read_text (root @ rel) con")
  obtain a t where m: "merge_results rel results (all_results, tot) = (a, t)"
    by (cases "merge_results rel results (all_results, tot)")
  have "[] \<notin> set (map snd results)"
    using vals_find_patterns [of read_text "root @ rel" con] f by simp
  from agg_ok_merge_results [OF Cons.prems this, of rel tot] m have "agg_ok a" by simp
  with Cons show ?case by (simp add: f m)
qed

text \<open>
  C9. Every rule name that is a key of a file's scan result maps to a list of matches
  that is not empty, and so does every (rule, file) entry of the aggregate built by the
  walk; a rule of the aggregate has at least one file.
\<close>

theorem stored_entries_nonempty:
  "((name, ms) \<in> set (fst (find_patterns_in_file read_text filepath con)) \<longrightarrow> ms \<noteq> []) \<and>
   ((pattern_name, files) \<in> set (fst (walk root read_text tsx_files ([], 0, con))) \<longrightarrow>
      files \<noteq> [] \<and> ((rel_path, matches) \<in> set files \<longrightarrow> matches \<noteq> []))"
proof -
  have "agg_ok (fst (walk root read_text tsx_files ([], 0, con)))"
    by (rule agg_ok_walk) (simp add: agg_ok_def)
  then have "files \<noteq> [] \<and> ((rel_path, matches) \<in> set files \<longrightarrow> matches \<noteq> [])"
    if "(pattern_name, files) \<in> set (fst (walk root read_text tsx_files ([], 0, con)))"
    using that by (force simp: agg_ok_def list_all_iff)
  moreover have "ms \<noteq> []"
    if "(name, ms) \<in> set (fst (find_patterns_in_file read_text filepath con))"
    using that vals_find_patterns [of read_text filepath con] by force
  ultimately show ?thesis by blast
qed

theorem stored_entries_nonempty_witness:
  "(''dark:bg-*-N/opacity'',
      [\<lparr>m_line = 1, m_match = ''dark:bg-blue-900/50'',
         m_context = ''dark:bg-blue-900/50 bg-x-50/''\<rparr>])
     \<in> set (fst (find_patterns_in_file example_read ''/repo/app/a.tsx'' con0)) \<and>
   (''dark:bg-*-N/opacity'',
      [(''app/a.tsx'', [\<lparr>m_line = 1, m_match = ''dark:bg-blue-900/50'',
         m_context = ''dark:bg-blue-900/50 bg-x-50/''\<rparr>])])
     \<in> set (fst (walk ''/repo/'' example_read example_files ([], 0, con0))) \<and>
   [\<lparr>m_line = 1, m_match = ''dark:bg-blue-900/50'',
      m_context = ''dark:bg-blue-900/50 bg-x-50/''\<rparr>] \<noteq> [] \<and>
   [(''app/a.tsx'', [\<lparr>m_line = 1, m_match = ''dark:bg-blue-900/50'',
      m_context = ''dark:bg-blue-900/50 bg-x-50/''\<rparr>])] \<noteq> []"
proof -
  let ?m = "\<lparr>m_line = 1, m_match = ''dark:bg-blue-900/50'',
      m_context = ''dark:bg-blue-900/50 bg-x-50/''\<rparr>"
  have h1: "(''dark:bg-*-N/opacity'', [?m])
     \<in> set (fst (find_patterns_in_file example_read ''/repo/app/a.tsx'' con0))"
    by code_simp
  have h2: "(''dark:bg-*-N/opacity'', [(''app/a.tsx'', [?m])])
     \<in> set (fst (walk ''/repo/'' example_read example_files ([], 0, con0)))"
    by code_simp
  have h3: "(''app/a.tsx'', [?m]) \<in> set [(''app/a.tsx'', [?m])]"
    by simp
  note t = stored_entries_nonempty [of "''dark:bg-*-N/opacity''" "[?m]" example_read
      "''/repo/app/a.tsx''" con0 "''dark:bg-*-N/opacity''" "[(''app/a.tsx'', [?m])]"
      "''/repo/''" example_files "''app/a.tsx''" "[?m]"]
  from t h1 have c1: "[?m] \<noteq> []" by blast
  from t h2 have c2: "[(''app/a.tsx'', [?m])] \<noteq> []" by blast
  from h1 h2 c1 c2 show ?thesis by blast
qed

subsection \<open>What the matcher can match\<close>

lemma plus_rests_sound:
  "rest \<in> set (plus_rests k s) \<Longrightarrow> \<exists>w. s = w @ rest \<and> w \<noteq> [] \<and> list_all (in_class k) w"
proof (induction s)
  case Nil
  then show ?case by simp
next
  case (Cons c cs)
  then have c: "in_class k c" and "rest \<in> set (plus_rests k cs) \<or> rest = cs"
    by (auto split: if_splits)
  then show ?case
  proof (elim disjE)
    assume "rest \<in> set (plus_rests k cs)"
    from Cons.IH [OF this] obtain w where "cs = w @ rest" "list_all (in_class k) w" by blast
    with c have "c # cs = (c # w) @ rest \<and> c # w \<noteq> [] \<and> list_all (in_class k) (c # w)" by simp
    then show ?thesis by blast
  next
    assume "rest = cs"
    with c have "c # cs = [c] @ rest \<and> [c] \<noteq> [] \<and> list_all (in_class k) [c]" by simp
    then show ?thesis by blast
  qed
qed

lemma rmatch_sound:
  "rest \<in> set (rmatch r s) \<Longrightarrow> \<exists>m. s = m @ rest \<and> m \<in> lang r"
proof (induction r arbitrary: s rest)
  case Eps
  then show ?case by simp
next
  case (Lit c)
  then show ?case by (cases s) (auto split: if_splits)
next
  case (Cls k)
  then show ?case by (cases s) (auto split: if_splits)
next
  case (Plus k)
  then show ?case using plus_rests_sound [of rest k s] by auto
next
  case (Seq a b)
  from Seq.prems obtain mid where mid: "mid \<in> set (rmatch a s)" and rest: "rest \<in> set (rmatch b mid)"
    by auto
  from Seq.IH(1) [OF mid] obtain u where u: "s = u @ mid" "u \<in> lang a" by blast
  from Seq.IH(2) [OF rest] obtain v where v: "mid = v @ rest" "v \<in> lang b" by blast
  from u v have "s = (u @ v) @ rest \<and> u @ v \<in> lang (Seq a b)" by auto
  then show ?case by blast
next
  case (Alt a b)
  from Alt.prems have "rest \<in> set (rmatch a s) \<or> rest \<in> set (rmatch b s)" by simp
  then show ?case
  proof
    assume "rest \<in> set (rmatch a s)"
    from Alt.IH(1) [OF this] show ?thesis by auto
  next
    assume "rest \<in> set (rmatch b s)"
    from Alt.IH(2) [OF this] show ?thesis by auto
  qed
qed

lemma match_here_sound:
  assumes "match_here r s = Some m"
  shows "m \<in> lang r \<and> (\<exists>rest. s = m @ rest)"
proof -
  from assms obtain rest rs where rs: "rmatch r s = rest # rs"
    and m: "m = take (length s - length rest) s"
    by (auto simp: match_here_def split: list.splits)
  from rs have "rest \<in> set (rmatch r s)" by simp
  from rmatch_sound [OF this] obtain u where u: "s = u @ rest" "u \<in> lang r" by blast
  with m have "m = u" by simp
  with u show ?thesis by blast
qed


lemma lang_lit: "lang (lit s) = {s}"
  by (induction s) auto




lemma findall_no_empty:
  "[] \<notin> lang r \<Longrightarrow> [] \<notin> set (findall r s)"
proof (induction r s rule: findall.induct)
  case (1 r s)
  show ?case
  proof (cases "match_here r s")
    case None
    show ?thesis
    proof (cases s)
      case Nil
      with None show ?thesis by (subst findall.simps) simp
    next
      case (Cons c t)
      from "1.IH"(1) [OF None Cons "1.prems"] None Cons show ?thesis
        by (subst findall.simps) simp
    qed
  next
    case (Some x)
    from match_here_sound [OF Some] "1.prems" have ne: "x \<noteq> []" by auto
    from "1.IH"(3) [OF Some ne "1.prems"] Some ne show ?thesis
      by (subst findall.simps) simp
  qed
qed



text \<open>
  No rule matches the empty text, so \<open>findall\<close> never takes its empty-match branch on
  a pattern of the rule table.
\<close>

lemma rules_never_empty:
  assumes "(name, rx) \<in> set PATTERNS"
  shows "[] \<notin> lang rx" and "[] \<notin> set (findall rx line)"
proof -
  from PATTERNS_cases [OF assms] show e: "[] \<notin> lang rx"
    by (elim disjE conjE)
       (simp_all add: bg50_def dark_bg_def dark_hover_bg_def dark_border_def lang_lit
          del: lit.simps)
  from findall_no_empty [OF e] show "[] \<notin> set (findall rx line)" .
qed



subsection \<open>Line numbers and the records of one line\<close>

lemma get_default_Nil: "dict_get_default [] k = []"
  by (simp add: dict_get_default_def)

lemma get_default_absent: "k \<notin> set (map fst d) \<Longrightarrow> dict_get_default d k = []"
  by (induction d) (auto simp: dict_get_default_def)

lemma get_default_entry:
  "distinct (map fst d) \<Longrightarrow> (k, v) \<in> set d \<Longrightarrow> dict_get_default d k = v"
  by (simp add: dict_get_default_def)

lemma kept_mem:
  "m \<in> set (kept n l ms) \<Longrightarrow>
     m_line m = n \<and> m_match m \<in> set ms \<and> m_context m = take 100 (strip l)"
  by (auto simp: kept_def)

lemma scan_of_read:
  "read_text filepath = Inr content \<Longrightarrow>
   fst (find_patterns_in_file read_text filepath con) = scan_lines 1 (split_lines content) []"
  by (simp add: find_patterns_in_file_def)

lemma scan_get:
  "(name, rx) \<in> set PATTERNS \<Longrightarrow>
   dict_get_default (scan_lines 1 lines []) name = kept_lines rx 1 lines"
  by (simp add: get_scan_lines get_default_Nil)

lemma scan_get_other:
  assumes "name \<notin> set (map fst PATTERNS)"
  shows "dict_get_default (scan_lines 1 lines []) name = []"
proof -
  from keys_scan_lines [of 1 lines "[]"] assms
  have "name \<notin> set (map fst (scan_lines 1 lines []))" by auto
  then show ?thesis by (rule get_default_absent)
qed

lemma scan_entry:
  assumes "(name, ms) \<in> set (scan_lines 1 lines [])"
  shows "\<exists>rx. (name, rx) \<in> set PATTERNS \<and> ms = kept_lines rx 1 lines"
proof -
  from assms have "name \<in> set (map fst (scan_lines 1 lines []))" by force
  with keys_scan_lines [of 1 lines "[]"] have "name \<in> set (map fst PATTERNS)" by auto
  then obtain rx where rx: "(name, rx) \<in> set PATTERNS" by auto
  have "distinct (map fst (scan_lines 1 lines []))"
    by (rule distinct_scan_lines) simp
  from get_default_entry [OF this assms] scan_get [OF rx, of lines] rx show ?thesis by auto
qed

lemma scan_line:
  assumes "(name, rx) \<in> set PATTERNS" "i < length lines"
  shows "filter (\<lambda>m. m_line m = Suc i) (dict_get_default (scan_lines 1 lines []) name) =
     kept (Suc i) (lines ! i) (findall rx (lines ! i))"
  using filter_kept_lines [OF assms(2), of 1 rx] scan_get [OF assms(1), of lines] by simp

lemma scan_line_other:
  assumes "name \<notin> set (map fst PATTERNS)"
  shows "filter (\<lambda>m. m_line m = Suc i) (dict_get_default (scan_lines 1 lines []) name) = []"
  using scan_get_other [OF assms, of lines] by simp

lemma example_line_findall:
  "findall bg50 example_line = [''bg-red-50 '']" "findall dark_bg example_line = []"
  "findall dark_hover_bg example_line = []" "findall dark_border example_line = []"
  by code_simp+

lemma example_line_plain:
  "contains ''focus:ring'' example_line = False" "take 100 (strip example_line) = example_line"
  by code_simp+

text \<open>
  C5. In the scan result of a file that could be read, every recorded match has a line
  number between 1 and the number of lines, and its text is a match of its rule on the
  line with that number (counted from 1). Conversely the records with line number
  \<open>i + 1\<close> under a rule are exactly the matches of the rule on line \<open>i + 1\<close> that the
  focus-ring exception keeps, in order. Wherever the line \<^verbatim>\<open>className="bg-red-50 p-2"\<close>
  stands in a file, it gives one record, under the rule \<^verbatim>\<open>bg-*-50 (use -100)\<close>, with
  the text \<^verbatim>\<open>bg-red-50\<close> followed by the space, and its own line number; a file that
  consists of this line has exactly this record, with line number 1.
\<close>

theorem line_numbers_physical:
  assumes "read_text filepath = Inr content"
  shows
   "((pattern_name, ms) \<in> set (fst (find_patterns_in_file read_text filepath con)) \<and> m \<in> set ms \<longrightarrow>
       1 \<le> m_line m \<and> m_line m \<le> length (split_lines content) \<and>
       (\<exists>rx. (pattern_name, rx) \<in> set PATTERNS \<and>
          m_match m \<in> set (findall rx (split_lines content ! (m_line m - 1))))) \<and>
    ((name, rx) \<in> set PATTERNS \<and> i < length (split_lines content) \<longrightarrow>
       filter (\<lambda>m. m_line m = Suc i)
         (dict_get_default (fst (find_patterns_in_file read_text filepath con)) name) =
       map (\<lambda>x. \<lparr>m_line = Suc i, m_match = x,
                  m_context = take 100 (strip (split_lines content ! i))\<rparr>)
         (filter (\<lambda>x. \<not> (contains ''focus:ring'' (split_lines content ! i) \<and>
                          contains ''-900/50'' x))
            (findall rx (split_lines content ! i)))) \<and>
    (j < length (split_lines content) \<and> split_lines content ! j = example_line \<longrightarrow>
       filter (\<lambda>m. m_line m = Suc j)
         (dict_get_default (fst (find_patterns_in_file read_text filepath con))
            ''bg-*-50 (use -100)'') =
         [\<lparr>m_line = Suc j, m_match = ''bg-red-50 '', m_context = example_line\<rparr>] \<and>
       (\<forall>other. other \<noteq> ''bg-*-50 (use -100)'' \<longrightarrow>
          filter (\<lambda>m. m_line m = Suc j)
            (dict_get_default (fst (find_patterns_in_file read_text filepath con)) other) = [])) \<and>
    fst (find_patterns_in_file (\<lambda>p. Inr example_line) filepath con) =
      [(''bg-*-50 (use -100)'',
        [\<lparr>m_line = 1, m_match = ''bg-red-50 '', m_context = example_line\<rparr>])]"
proof -
  let ?lines = "split_lines content"
  let ?res = "fst (find_patterns_in_file read_text filepath con)"
  have res: "?res = scan_lines 1 ?lines []"
    using assms by (rule scan_of_read)
  have 1: "1 \<le> m_line m \<and> m_line m \<le> length ?lines \<and>
       (\<exists>rx. (pattern_name, rx) \<in> set PATTERNS \<and>
          m_match m \<in> set (findall rx (?lines ! (m_line m - 1))))"
    if e: "(pattern_name, ms) \<in> set ?res" and m: "m \<in> set ms"
  proof -
    from e res scan_entry [of pattern_name ms ?lines] obtain rx
      where rx: "(pattern_name, rx) \<in> set PATTERNS" "ms = kept_lines rx 1 ?lines" by auto
    from kept_lines_line [of m rx 1 ?lines] m rx(2)
    have l: "1 \<le> m_line m" "m_line m < 1 + length ?lines"
      and k: "m \<in> set (kept (m_line m) (?lines ! (m_line m - 1))
                 (findall rx (?lines ! (m_line m - 1))))" by auto
    from kept_mem [OF k] have "m_match m \<in> set (findall rx (?lines ! (m_line m - 1)))"
      by simp
    with l rx(1) show ?thesis by auto
  qed
  have 2: "filter (\<lambda>m. m_line m = Suc i) (dict_get_default ?res name) =
       map (\<lambda>x. \<lparr>m_line = Suc i, m_match = x, m_context = take 100 (strip (?lines ! i))\<rparr>)
         (filter (\<lambda>x. \<not> (contains ''focus:ring'' (?lines ! i) \<and> contains ''-900/50'' x))
            (findall rx (?lines ! i)))"
    if "(name, rx) \<in> set PATTERNS" "i < length ?lines"
    using scan_line [OF that] by (simp add: res kept_def)
  have 3: "filter (\<lambda>m. m_line m = Suc j) (dict_get_default ?res ''bg-*-50 (use -100)'') =
         [\<lparr>m_line = Suc j, m_match = ''bg-red-50 '', m_context = example_line\<rparr>] \<and>
       (\<forall>other. other \<noteq> ''bg-*-50 (use -100)'' \<longrightarrow>
          filter (\<lambda>m. m_line m = Suc j) (dict_get_default ?res other) = [])"
    if j: "j < length ?lines" and l: "?lines ! j = example_line"
  proof -
    have a: "filter (\<lambda>m. m_line m = Suc j) (dict_get_default ?res ''bg-*-50 (use -100)'') =
         [\<lparr>m_line = Suc j, m_match = ''bg-red-50 '', m_context = example_line\<rparr>]"
      using scan_line [of "''bg-*-50 (use -100)''" bg50 j ?lines] j
      by (simp add: res l PATTERNS_def kept_def example_line_findall example_line_plain)
    have b: "filter (\<lambda>m. m_line m = Suc j) (dict_get_default ?res other) = []"
      if o: "other \<noteq> ''bg-*-50 (use -100)''" for other
    proof (cases "other \<in> set (map fst PATTERNS)")
      case False
      from scan_line_other [OF False, of j ?lines] show ?thesis by (simp only: res)
    next
      case True
      then obtain rx where rx: "(other, rx) \<in> set PATTERNS" by auto
      from PATTERNS_cases [OF rx] o have "findall rx example_line = []"
        by (auto simp: example_line_findall)
      with scan_line [OF rx j] show ?thesis by (simp add: res l kept_def)
    qed
    from a b show ?thesis by blast
  qed
  have "scan_lines 1 (split_lines example_line) [] =
      [(''bg-*-50 (use -100)'',
        [\<lparr>m_line = 1, m_match = ''bg-red-50 '', m_context = example_line\<rparr>])]"
    by code_simp
  then have 4: "fst (find_patterns_in_file (\<lambda>p. Inr example_line) filepath con) =
      [(''bg-*-50 (use -100)'',
        [\<lparr>m_line = 1, m_match = ''bg-red-50 '', m_context = example_line\<rparr>])]"
    by (simp add: find_patterns_in_file_def)
  from 1 2 3 4 show ?thesis by blast
qed


theorem line_numbers_physical_witness:
  "page_read ''/repo/app/page.tsx'' = Inr example_page \<and>
   (''bg-*-50 (use -100)'',
      [\<lparr>m_line = 2, m_match = ''bg-red-50 '', m_context = example_line\<rparr>])
     \<in> set (fst (find_patterns_in_file page_read ''/repo/app/page.tsx'' con0)) \<and>
   (''bg-*-50 (use -100)'', bg50) \<in> set PATTERNS \<and>
   Suc 0 < length (split_lines example_page) \<and>
   split_lines example_page ! Suc 0 = example_line \<and>
   m_line \<lparr>m_line = 2, m_match = ''bg-red-50 '', m_context = example_line\<rparr>
     \<le> length (split_lines example_page) \<and>
   filter (\<lambda>m. m_line m = Suc (Suc 0))
     (dict_get_default
        (fst (find_patterns_in_file page_read ''/repo/app/page.tsx'' con0))
        ''bg-*-50 (use -100)'') =
     [\<lparr>m_line = Suc (Suc 0), m_match = ''bg-red-50 '', m_context = example_line\<rparr>]"
proof -
  let ?M = "\<lparr>m_line = 2, m_match = ''bg-red-50 '', m_context = example_line\<rparr>"
  let ?res = "fst (find_patterns_in_file page_read ''/repo/app/page.tsx'' con0)"
  have h0: "page_read ''/repo/app/page.tsx'' = Inr example_page"
    by (simp add: page_read_def)
  have h1: "(''bg-*-50 (use -100)'', [?M]) \<in> set ?res"
    by code_simp
  have h2: "(''bg-*-50 (use -100)'', bg50) \<in> set PATTERNS"
    by (simp add: PATTERNS_def)
  have h3: "Suc 0 < length (split_lines example_page)"
    by code_simp
  have h4: "split_lines example_page ! Suc 0 = example_line"
    by code_simp
  note t = line_numbers_physical [where read_text = page_read
      and filepath = "''/repo/app/page.tsx''" and content = example_page, OF h0,
      where pattern_name = "''bg-*-50 (use -100)''"
      and ms = "[?M]" and m = ?M and name = "''bg-*-50 (use -100)''" and rx = bg50
      and i = "Suc 0" and j = "Suc 0" and con = con0]
  from t h1 have c1: "m_line ?M \<le> length (split_lines example_page)"
    by simp
  from t h3 h4 have c2: "filter (\<lambda>m. m_line m = Suc (Suc 0)) (dict_get_default ?res ''bg-*-50 (use -100)'') =
     [\<lparr>m_line = Suc (Suc 0), m_match = ''bg-red-50 '', m_context = example_line\<rparr>]"
    by blast
  from h0 h1 h2 h3 h4 c1 c2 show ?thesis by blast
qed

subsection \<open>The dark-mode example and the focus-ring exception\<close>

lemma dark_line_findall:
  "findall bg50 dark_line = []"
  "findall dark_bg dark_line = [dark_line]"
  "findall dark_hover_bg dark_line = []"
  "findall dark_border dark_line = []"
  by code_simp+

lemma dark_line_plain:
  "contains ''focus:ring'' dark_line = False"
  "take 100 (strip dark_line) = dark_line"
  by code_simp+

text \<open>
  C6. A file that consists of the line \<^verbatim>\<open>dark:bg-blue-900/50\<close> has a scan result with one
  entry, for the rule \<^verbatim>\<open>dark:bg-*-N/opacity\<close>, holding one record with that text; and
  wherever this line stands in a file, the records with its line number are that one
  record under that rule and none under any other name.
\<close>

theorem dark_bg_one_match:
  "fst (find_patterns_in_file (\<lambda>p. Inr dark_line) filepath con) =
     [(''dark:bg-*-N/opacity'',
       [\<lparr>m_line = 1, m_match = dark_line,
          m_context = dark_line\<rparr>])] \<and>
   (read_text filepath = Inr content \<and> j < length (split_lines content) \<and>
    split_lines content ! j = dark_line \<longrightarrow>
      filter (\<lambda>m. m_line m = Suc j)
        (dict_get_default (fst (find_patterns_in_file read_text filepath con))
           ''dark:bg-*-N/opacity'') =
        [\<lparr>m_line = Suc j, m_match = dark_line,
           m_context = dark_line\<rparr>] \<and>
      (\<forall>other. other \<noteq> ''dark:bg-*-N/opacity'' \<longrightarrow>
         filter (\<lambda>m. m_line m = Suc j)
           (dict_get_default (fst (find_patterns_in_file read_text filepath con)) other) = []))"
proof -
  let ?lines = "split_lines content"
  let ?res = "fst (find_patterns_in_file read_text filepath con)"
  have "scan_lines 1 (split_lines dark_line) [] =
     [(''dark:bg-*-N/opacity'',
       [\<lparr>m_line = 1, m_match = dark_line,
          m_context = dark_line\<rparr>])]"
    by code_simp
  then have 1: "fst (find_patterns_in_file (\<lambda>p. Inr dark_line) filepath con) =
     [(''dark:bg-*-N/opacity'',
       [\<lparr>m_line = 1, m_match = dark_line,
          m_context = dark_line\<rparr>])]"
    by (simp add: find_patterns_in_file_def)
  have 2: "filter (\<lambda>m. m_line m = Suc j) (dict_get_default ?res ''dark:bg-*-N/opacity'') =
        [\<lparr>m_line = Suc j, m_match = dark_line,
           m_context = dark_line\<rparr>] \<and>
      (\<forall>other. other \<noteq> ''dark:bg-*-N/opacity'' \<longrightarrow>
         filter (\<lambda>m. m_line m = Suc j) (dict_get_default ?res other) = [])"
    if r: "read_text filepath = Inr content" and j: "j < length ?lines"
      and l: "?lines ! j = dark_line"
  proof -
    have res: "?res = scan_lines 1 ?lines []"
      using r by (rule scan_of_read)
    have a: "filter (\<lambda>m. m_line m = Suc j) (dict_get_default ?res ''dark:bg-*-N/opacity'') =
        [\<lparr>m_line = Suc j, m_match = dark_line,
           m_context = dark_line\<rparr>]"
      using scan_line [of "''dark:bg-*-N/opacity''" dark_bg j ?lines] j
      by (simp add: res l PATTERNS_def kept_def dark_line_findall dark_line_plain)
    have b: "filter (\<lambda>m. m_line m = Suc j) (dict_get_default ?res other) = []"
      if o: "other \<noteq> ''dark:bg-*-N/opacity''" for other
    proof (cases "other \<in> set (map fst PATTERNS)")
      case False
      from scan_line_other [OF False, of j ?lines] show ?thesis by (simp only: res)
    next
      case True
      then obtain rx where rx: "(other, rx) \<in> set PATTERNS" by auto
      from PATTERNS_cases [OF rx] o have "findall rx dark_line = []"
        by (auto simp: dark_line_findall)
      with scan_line [OF rx j] show ?thesis by (simp add: res l kept_def)
    qed
    from a b show ?thesis by blast
  qed
  from 1 2 show ?thesis by blast
qed

theorem dark_bg_one_match_witness:
  "dark_read ''/repo/app/dark.tsx'' = Inr dark_page \<and>
   Suc 0 < length (split_lines dark_page) \<and>
   split_lines dark_page ! Suc 0 = dark_line \<and>
   filter (\<lambda>m. m_line m = Suc (Suc 0))
     (dict_get_default (fst (find_patterns_in_file dark_read ''/repo/app/dark.tsx'' con0))
        ''dark:bg-*-N/opacity'') =
     [\<lparr>m_line = Suc (Suc 0), m_match = dark_line,
        m_context = dark_line\<rparr>] \<and>
   filter (\<lambda>m. m_line m = Suc (Suc 0))
     (dict_get_default (fst (find_patterns_in_file dark_read ''/repo/app/dark.tsx'' con0))
        ''bg-*-50 (use -100)'') = []"
proof -
  have h0: "dark_read ''/repo/app/dark.tsx'' = Inr dark_page"
    by (simp add: dark_read_def)
  have h1: "Suc 0 < length (split_lines dark_page)"
    by code_simp
  have h2: "split_lines dark_page ! Suc 0 = dark_line"
    by code_simp
  have h3: "''bg-*-50 (use -100)'' \<noteq> ''dark:bg-*-N/opacity''"
    by simp
  note t = dark_bg_one_match [where read_text = dark_read
      and filepath = "''/repo/app/dark.tsx''" and content = dark_page and j = "Suc 0"
      and con = con0, THEN conjunct2, rule_format, OF conjI [OF h0 conjI [OF h1 h2]]]
  note c1 = t [THEN conjunct1]
  note c2 = t [THEN conjunct2, rule_format, OF h3]
  show ?thesis by (intro conjI h0 h1 h2 c1 c2)
qed


lemma map_match_kept:
  "map m_match (kept n l ms) =
     filter (\<lambda>x. \<not> (contains ''focus:ring'' l \<and> contains ''-900/50'' x)) ms"
  by (simp add: kept_def o_def)

text \<open>
  C3. On a line that contains \<^verbatim>\<open>focus:ring\<close>, the texts recorded for a rule are the
  matches of the rule on that line without those that contain \<^verbatim>\<open>-900/50\<close>, in order:
  these are dropped and every other match is kept. A file that consists of
  \<^verbatim>\<open>focus:ring-blue-900/50\<close> has an empty scan result; a file that consists of
  \<^verbatim>\<open>dark:hover:bg-blue-900/50\<close> has one record, under the rule
  \<^verbatim>\<open>dark:hover:bg-*-N/opacity\<close>; and of a tree with these two files only the second
  is in the aggregate.
\<close>

theorem focus_ring_suppression:
  "(read_text filepath = Inr content \<and> (name, rx) \<in> set PATTERNS \<and>
    i < length (split_lines content) \<and> contains ''focus:ring'' (split_lines content ! i) \<longrightarrow>
      map m_match
        (filter (\<lambda>m. m_line m = Suc i)
           (dict_get_default (fst (find_patterns_in_file read_text filepath con)) name)) =
      filter (\<lambda>x. \<not> contains ''-900/50'' x) (findall rx (split_lines content ! i))) \<and>
   fst (find_patterns_in_file (\<lambda>p. Inr ring_only) filepath con) = [] \<and>
   fst (find_patterns_in_file (\<lambda>p. Inr hover_line) filepath con) =
     [(''dark:hover:bg-*-N/opacity'',
       [\<lparr>m_line = 1, m_match = hover_line, m_context = hover_line\<rparr>])] \<and>
   fst (walk ''/repo/'' ring_read [''app/ring.tsx'', ''app/hover.tsx''] ([], 0, con0)) =
     [(''dark:hover:bg-*-N/opacity'',
       [(''app/hover.tsx'', [\<lparr>m_line = 1, m_match = hover_line, m_context = hover_line\<rparr>])])]"
proof -
  let ?lines = "split_lines content"
  let ?res = "fst (find_patterns_in_file read_text filepath con)"
  have 1: "map m_match (filter (\<lambda>m. m_line m = Suc i) (dict_get_default ?res name)) =
      filter (\<lambda>x. \<not> contains ''-900/50'' x) (findall rx (?lines ! i))"
    if r: "read_text filepath = Inr content" and p: "(name, rx) \<in> set PATTERNS"
      and i: "i < length ?lines" and c: "contains ''focus:ring'' (?lines ! i)"
  proof -
    have res: "?res = scan_lines 1 ?lines []"
      using r by (rule scan_of_read)
    from scan_line [OF p i] have
      "map m_match (filter (\<lambda>m. m_line m = Suc i) (dict_get_default ?res name)) =
         map m_match (kept (Suc i) (?lines ! i) (findall rx (?lines ! i)))"
      by (simp only: res)
    also have "\<dots> = filter (\<lambda>x. \<not> contains ''-900/50'' x) (findall rx (?lines ! i))"
      using c by (simp only: map_match_kept simp_thms)
    finally show ?thesis .
  qed
  have "scan_lines 1 (split_lines ring_only) [] = []"
    by code_simp
  then have 2: "fst (find_patterns_in_file (\<lambda>p. Inr ring_only) filepath con) = []"
    by (simp add: find_patterns_in_file_def)
  have "scan_lines 1 (split_lines hover_line) [] =
     [(''dark:hover:bg-*-N/opacity'',
       [\<lparr>m_line = 1, m_match = hover_line, m_context = hover_line\<rparr>])]"
    by code_simp
  then have 3: "fst (find_patterns_in_file (\<lambda>p. Inr hover_line) filepath con) =
     [(''dark:hover:bg-*-N/opacity'',
       [\<lparr>m_line = 1, m_match = hover_line, m_context = hover_line\<rparr>])]"
    by (simp add: find_patterns_in_file_def)
  have 4: "fst (walk ''/repo/'' ring_read [''app/ring.tsx'', ''app/hover.tsx''] ([], 0, con0)) =
     [(''dark:hover:bg-*-N/opacity'',
       [(''app/hover.tsx'', [\<lparr>m_line = 1, m_match = hover_line, m_context = hover_line\<rparr>])])]"
    by code_simp
  have imp: "read_text filepath = Inr content \<and> (name, rx) \<in> set PATTERNS \<and>
    i < length ?lines \<and> contains ''focus:ring'' (?lines ! i) \<longrightarrow>
      map m_match (filter (\<lambda>m. m_line m = Suc i) (dict_get_default ?res name)) =
      filter (\<lambda>x. \<not> contains ''-900/50'' x) (findall rx (?lines ! i))"
  proof (intro impI, elim conjE)
    assume "read_text filepath = Inr content" "(name, rx) \<in> set PATTERNS"
      "i < length ?lines" "contains ''focus:ring'' (?lines ! i)"
    then show "map m_match (filter (\<lambda>m. m_line m = Suc i) (dict_get_default ?res name)) =
      filter (\<lambda>x. \<not> contains ''-900/50'' x) (findall rx (?lines ! i))"
      by (rule 1)
  qed
  show ?thesis by (intro conjI imp 2 3 4)
qed

theorem focus_ring_suppression_witness:
  "ring_read ''/repo/app/both.tsx'' = Inr ring_line \<and>
   (''dark:bg-*-N/opacity'', dark_bg) \<in> set PATTERNS \<and>
   0 < length (split_lines ring_line) \<and>
   contains ''focus:ring'' (split_lines ring_line ! 0) \<and>
   findall dark_bg (split_lines ring_line ! 0) = [''dark:bg-blue-900/50'', ''dark:bg-red-800/30''] \<and>
   map m_match
     (filter (\<lambda>m. m_line m = Suc 0)
        (dict_get_default (fst (find_patterns_in_file ring_read ''/repo/app/both.tsx'' con0))
           ''dark:bg-*-N/opacity'')) =
     filter (\<lambda>x. \<not> contains ''-900/50'' x) (findall dark_bg (split_lines ring_line ! 0)) \<and>
   filter (\<lambda>x. \<not> contains ''-900/50'' x) (findall dark_bg (split_lines ring_line ! 0)) =
     [''dark:bg-red-800/30'']"
proof -
  have h0: "ring_read ''/repo/app/both.tsx'' = Inr ring_line"
    by (simp add: ring_read_def)
  have h1: "(''dark:bg-*-N/opacity'', dark_bg) \<in> set PATTERNS"
    by (simp add: PATTERNS_def)
  have h2: "0 < length (split_lines ring_line)"
    by code_simp
  have h3: "contains ''focus:ring'' (split_lines ring_line ! 0)"
    by code_simp
  have e1: "findall dark_bg (split_lines ring_line ! 0) =
      [''dark:bg-blue-900/50'', ''dark:bg-red-800/30'']"
    by code_simp
  have e2: "filter (\<lambda>x. \<not> contains ''-900/50'' x) (findall dark_bg (split_lines ring_line ! 0)) =
     [''dark:bg-red-800/30'']"
    by code_simp
  note t = focus_ring_suppression [where read_text = ring_read
      and filepath = "''/repo/app/both.tsx''" and content = ring_line
      and name = "''dark:bg-*-N/opacity''" and rx = dark_bg and i = 0 and con = con0,
      THEN conjunct1, rule_format, OF conjI [OF h0 conjI [OF h1 conjI [OF h2 h3]]]]
  show ?thesis by (intro conjI h0 h1 h2 h3 e1 e2 t)
qed

subsection \<open>The walk: unreadable and excluded files\<close>

lemma prints_Nil: "prints [] con = con"
  by (simp add: prints_def)

lemma prints_append: "prints (xs @ ys) con = prints ys (prints xs con)"
  by (simp add: prints_def)

lemma prints_single: "prints [l] con = print l con"
  by (simp add: prints_def)

lemma stdout_prints: "stdout (prints ls con) = stdout con @ ls"
  by (induction ls arbitrary: con) (simp_all add: prints_def print_def)

lemma stderr_prints: "stderr (prints ls con) = stderr con"
  by (induction ls arbitrary: con) (simp_all add: prints_def print_def)

lemma find_failed:
  "read_text filepath = Inl e \<Longrightarrow>
   find_patterns_in_file read_text filepath con =
     ([], print (''Error reading '' @ filepath @ '': '' @ e) con)"
  by (simp add: find_patterns_in_file_def)

lemma find_read:
  "read_text filepath = Inr content \<Longrightarrow>
   find_patterns_in_file read_text filepath con = (scan_lines 1 (split_lines content) [], con)"
  by (simp add: find_patterns_in_file_def)

lemma walk_append:
  "walk root read_text (xs @ ys) st = walk root read_text ys (walk root read_text xs st)"
proof (induction xs arbitrary: st)
  case Nil
  show ?case by simp
next
  case (Cons x xs)
  obtain a t c where st: "st = (a, t, c)" by (cases st)
  show ?case
    by (simp add: st Cons split: prod.splits)
qed

lemma walk_ignored:
  "should_ignore (root @ rel) \<Longrightarrow>
   walk root read_text (rel # rest) (a, t, c) = walk root read_text rest (a, t, c)"
  by simp

lemma walk_failed:
  "\<not> should_ignore (root @ rel) \<Longrightarrow> read_text (root @ rel) = Inl e \<Longrightarrow>
   walk root read_text (rel # rest) (a, t, c) =
     walk root read_text rest (a, t, print (''Error reading '' @ root @ rel @ '': '' @ e) c)"
  by (simp add: find_failed)

lemma walk_read:
  "\<not> should_ignore (root @ rel) \<Longrightarrow> read_text (root @ rel) = Inr content \<Longrightarrow>
   walk root read_text (rel # rest) (a, t, c) =
     (if scan_lines 1 (split_lines content) [] = [] then walk root read_text rest (a, t, c)
      else walk root read_text rest
             (fst (merge_results rel (scan_lines 1 (split_lines content) []) (a, t)),
              snd (merge_results rel (scan_lines 1 (split_lines content) []) (a, t)), c))"
  by (simp add: find_read split: prod.splits)

lemma walk_console:
  "snd (snd (walk root read_text xs (a, t, c))) = prints (error_lines root read_text xs) c"
proof (induction xs arbitrary: a t c)
  case Nil
  show ?case by (simp add: error_lines_def prints_Nil)
next
  case (Cons x xs)
  have el: "error_lines root read_text (x # xs) =
      (if should_ignore (root @ x) then []
       else (case read_text (root @ x) of
               Inl e \<Rightarrow> [''Error reading '' @ root @ x @ '': '' @ e] | Inr content \<Rightarrow> [])) @
      error_lines root read_text xs"
    by (simp add: error_lines_def)
  show ?case
  proof (cases "should_ignore (root @ x)")
    case True
    then show ?thesis by (simp only: walk_ignored Cons el if_True append_Nil)
  next
    case False
    show ?thesis
    proof (cases "read_text (root @ x)")
      case (Inl e)
      show ?thesis
        by (simp only: walk_failed [where root = root and rel = x and read_text = read_text, OF False Inl] Cons el False if_False Inl sum.case
            prints_append prints_single)
    next
      case (Inr content)
      show ?thesis
        by (simp add: walk_read [where root = root and rel = x and read_text = read_text, OF False Inr]
            Cons el False Inr del: walk.simps)
    qed
  qed
qed

lemma walk_data_indep:
  "fst (walk root read_text xs (a, t, c)) = fst (walk root read_text xs (a, t, c')) \<and>
   fst (snd (walk root read_text xs (a, t, c))) = fst (snd (walk root read_text xs (a, t, c')))"
proof (induction xs arbitrary: a t c c')
  case Nil
  show ?case by simp
next
  case (Cons x xs)
  show ?case
  proof (cases "should_ignore (root @ x)")
    case True
    then show ?thesis by (simp only: walk_ignored Cons [of a t c c'])
  next
    case False
    show ?thesis
    proof (cases "read_text (root @ x)")
      case (Inl e)
      show ?thesis
        by (simp only: walk_failed [where root = root and rel = x and read_text = read_text, OF False Inl]
              Cons [of a t "print (''Error reading '' @ root @ x @ '': '' @ e) c"
                     "print (''Error reading '' @ root @ x @ '': '' @ e) c'"])
    next
      case (Inr content)
      show ?thesis
      proof (cases "scan_lines 1 (split_lines content) [] = []")
        case True
        then show ?thesis
          using Cons [of a t c c']
          by (simp add: walk_read [where root = root and rel = x and read_text = read_text, OF False Inr]
              del: walk.simps)
      next
        case ne: False
        then show ?thesis
          using Cons [of _ _ c c']
          by (simp add: walk_read [where root = root and rel = x and read_text = read_text, OF False Inr]
              del: walk.simps)
      qed
    qed
  qed
qed


lemma get_dict_set:
  "dict_get_default (dict_set k v d) k' = (if k' = k then v else dict_get_default d k')"
  by (induction k v d rule: dict_set.induct) (auto simp: dict_get_default_def)

lemma keys_dict_set:
  "map fst (dict_set k v d) = (if k \<in> set (map fst d) then map fst d else map fst d @ [k])"
  by (induction k v d rule: dict_set.induct) simp_all

lemma distinct_dict_set:
  "distinct (map fst d) \<Longrightarrow> distinct (map fst (dict_set k v d))"
  by (simp add: keys_dict_set)

lemma merge_distinct:
  "distinct (map fst a) \<Longrightarrow> distinct (map fst (fst (merge_results rel rs (a, t))))"
proof (induction rs arbitrary: a t)
  case Nil
  then show ?case by simp
next
  case (Cons r rs)
  obtain n ms where r: "r = (n, ms)" by (cases r)
  from Cons.IH [OF distinct_dict_set [OF Cons.prems]] show ?case
    by (simp add: r)
qed

lemma merge_file_keys:
  "x \<in> set (map fst (dict_get_default (fst (merge_results rel rs (a, t))) n)) \<Longrightarrow>
   x = rel \<or> x \<in> set (map fst (dict_get_default a n))"
proof (induction rs arbitrary: a t)
  case Nil
  then show ?case by simp
next
  case (Cons r rs)
  obtain n' ms where r: "r = (n', ms)" by (cases r)
  let ?a = "dict_set n' (dict_set rel ms (dict_get_default a n')) a"
  from Cons.prems have "x \<in> set (map fst (dict_get_default (fst (merge_results rel rs (?a, t + length ms))) n))"
    by (simp add: r)
  from Cons.IH [OF this] have "x = rel \<or> x \<in> set (map fst (dict_get_default ?a n))" .
  then show ?case
  proof
    assume "x = rel"
    then show ?thesis by simp
  next
    assume x: "x \<in> set (map fst (dict_get_default ?a n))"
    show ?thesis
    proof (cases "n = n'")
      case True
      with x have "x \<in> set (map fst (dict_set rel ms (dict_get_default a n')))"
        by (simp add: get_dict_set)
      then have "x = rel \<or> x \<in> set (map fst (dict_get_default a n'))"
        by (simp add: keys_dict_set split: if_splits)
      with True show ?thesis by simp
    next
      case False
      with x show ?thesis by (simp add: get_dict_set)
    qed
  qed
qed

lemma walk_distinct:
  "distinct (map fst a) \<Longrightarrow> distinct (map fst (fst (walk root read_text xs (a, t, c))))"
proof (induction xs arbitrary: a t c)
  case Nil
  then show ?case by simp
next
  case (Cons x xs)
  obtain results c' where f: "find_patterns_in_file read_text (root @ x) c = (results, c')"
    by (cases "find_patterns_in_file read_text (root @ x) c")
  obtain a' t' where m: "merge_results x results (a, t) = (a', t')"
    by (cases "merge_results x results (a, t)")
  from merge_distinct [OF Cons.prems, of x results t] m have "distinct (map fst a')" by simp
  with Cons show ?case by (simp add: f m)
qed

lemma walk_file_keys:
  "x \<in> set (map fst (dict_get_default (fst (walk root read_text xs (a, t, c))) n)) \<Longrightarrow>
   x \<in> set (map fst (dict_get_default a n)) \<or>
   (x \<in> set xs \<and> \<not> should_ignore (root @ x) \<and> (\<exists>content. read_text (root @ x) = Inr content))"
proof (induction xs arbitrary: a t c)
  case Nil
  then show ?case by simp
next
  case (Cons y ys)
  show ?case
  proof (cases "should_ignore (root @ y)")
    case True
    with Cons.prems have "x \<in> set (map fst (dict_get_default (fst (walk root read_text ys (a, t, c))) n))"
      by simp
    from Cons.IH [OF this] show ?thesis by auto
  next
    case False
    show ?thesis
    proof (cases "read_text (root @ y)")
      case (Inl e)
      from Cons.prems have "x \<in> set (map fst (dict_get_default (fst (walk root read_text ys
          (a, t, print (''Error reading '' @ root @ y @ '': '' @ e) c))) n))"
        by (simp only: walk_failed [where root = root and rel = y and read_text = read_text, OF False Inl])
      from Cons.IH [OF this] show ?thesis by auto
    next
      case (Inr content)
      let ?rs = "scan_lines 1 (split_lines content) []"
      show ?thesis
      proof (cases "?rs = []")
        case True
        with Cons.prems have "x \<in> set (map fst (dict_get_default (fst (walk root read_text ys (a, t, c))) n))"
          by (simp add: walk_read [where root = root and rel = y and read_text = read_text, OF False Inr]
              del: walk.simps)
        from Cons.IH [OF this] show ?thesis by auto
      next
        case ne: False
        with Cons.prems have "x \<in> set (map fst (dict_get_default (fst (walk root read_text ys
            (fst (merge_results y ?rs (a, t)), snd (merge_results y ?rs (a, t)), c))) n))"
          by (simp add: walk_read [where root = root and rel = y and read_text = read_text, OF False Inr]
              del: walk.simps)
        from Cons.IH [OF this] have
          "x \<in> set (map fst (dict_get_default (fst (merge_results y ?rs (a, t))) n)) \<or>
           (x \<in> set ys \<and> \<not> should_ignore (root @ x) \<and> (\<exists>content. read_text (root @ x) = Inr content))" .
        then show ?thesis
        proof
          assume "x \<in> set (map fst (dict_get_default (fst (merge_results y ?rs (a, t))) n))"
          from merge_file_keys [OF this] False Inr show ?thesis by auto
        next
          assume "x \<in> set ys \<and> \<not> should_ignore (root @ x) \<and> (\<exists>content. read_text (root @ x) = Inr content)"
          then show ?thesis by auto
        qed
      qed
    qed
  qed
qed

lemma walk_entry_files:
  assumes "(n, files) \<in> set (fst (walk root read_text xs ([], 0, c)))"
    and "x \<in> set (map fst files)"
  shows "x \<in> set xs \<and> \<not> should_ignore (root @ x) \<and> (\<exists>content. read_text (root @ x) = Inr content)"
proof -
  have "distinct (map fst (fst (walk root read_text xs ([], 0, c))))"
    by (rule walk_distinct) simp
  from get_default_entry [OF this assms(1)] assms(2)
  have "x \<in> set (map fst (dict_get_default (fst (walk root read_text xs ([], 0, c))) n))"
    by simp
  from walk_file_keys [OF this] show ?thesis by (simp add: get_default_Nil)
qed




text \<open>
  C1. When the read of a file fails, its scan returns the empty result and appends one
  line, which names the path, to the output and nothing else. In a walk the file changes
  nothing but that line: the walk goes on with the files after it from the state it had
  reached, the aggregate and the total are those of the walk without the file, and the
  file is not a key of any rule of the aggregate.
\<close>

theorem read_failure_isolated:
  assumes "read_text (root @ rel_path) = Inl e"
  shows
   "find_patterns_in_file read_text (root @ rel_path) con =
      ([], con\<lparr>stdout := stdout con @ [''Error reading '' @ root @ rel_path @ '': '' @ e]\<rparr>) \<and>
    walk root read_text (before @ rel_path # after) (a, t, c) =
      walk root read_text after
        (case walk root read_text before (a, t, c) of
           (a', t', c') \<Rightarrow>
             (a', t',
              if should_ignore (root @ rel_path) then c'
              else c'\<lparr>stdout := stdout c' @ [''Error reading '' @ root @ rel_path @ '': '' @ e]\<rparr>)) \<and>
    fst (walk root read_text (before @ rel_path # after) (a, t, c)) =
      fst (walk root read_text (before @ after) (a, t, c)) \<and>
    fst (snd (walk root read_text (before @ rel_path # after) (a, t, c))) =
      fst (snd (walk root read_text (before @ after) (a, t, c))) \<and>
    ((name, files) \<in> set (fst (walk root read_text tsx_files ([], 0, c))) \<longrightarrow>
       rel_path \<notin> set (map fst files))"
proof -
  let ?err = "''Error reading '' @ root @ rel_path @ '': '' @ e"
  have 1: "find_patterns_in_file read_text (root @ rel_path) con =
      ([], con\<lparr>stdout := stdout con @ [?err]\<rparr>)"
    using assms by (simp add: find_patterns_in_file_def print_def)
  obtain a' t' c' where b: "walk root read_text before (a, t, c) = (a', t', c')"
    by (cases "walk root read_text before (a, t, c)")
  have step: "walk root read_text (rel_path # after) (a', t', c') =
      walk root read_text after
        (a', t', if should_ignore (root @ rel_path) then c' else c'\<lparr>stdout := stdout c' @ [?err]\<rparr>)"
  proof (cases "should_ignore (root @ rel_path)")
    case True
    then show ?thesis by simp
  next
    case False
    from walk_failed [where root = root and rel = rel_path and read_text = read_text, OF False assms]
    show ?thesis by (simp add: False print_def del: walk.simps)
  qed
  have 2: "walk root read_text (before @ rel_path # after) (a, t, c) =
      walk root read_text after
        (case walk root read_text before (a, t, c) of
           (a', t', c') \<Rightarrow>
             (a', t', if should_ignore (root @ rel_path) then c'
                      else c'\<lparr>stdout := stdout c' @ [?err]\<rparr>))"
    by (simp only: walk_append b step prod.case)
  have w: "walk root read_text (before @ after) (a, t, c) = walk root read_text after (a', t', c')"
    by (simp only: walk_append b)
  from walk_data_indep [of root read_text after a' t'
      "if should_ignore (root @ rel_path) then c' else c'\<lparr>stdout := stdout c' @ [?err]\<rparr>" c']
  have 3: "fst (walk root read_text (before @ rel_path # after) (a, t, c)) =
      fst (walk root read_text (before @ after) (a, t, c))"
    and 4: "fst (snd (walk root read_text (before @ rel_path # after) (a, t, c))) =
      fst (snd (walk root read_text (before @ after) (a, t, c)))"
    by (simp_all only: 2 w b prod.case)
  have 5: "(name, files) \<in> set (fst (walk root read_text tsx_files ([], 0, c))) \<longrightarrow>
       rel_path \<notin> set (map fst files)"
  proof (intro impI notI)
    assume "(name, files) \<in> set (fst (walk root read_text tsx_files ([], 0, c)))"
      and "rel_path \<in> set (map fst files)"
    from walk_entry_files [OF this] assms show False by auto
  qed
  show ?thesis by (intro conjI 1 2 3 4 5)
qed

theorem read_failure_isolated_witness:
  "example_read (''/repo/'' @ ''app/b.tsx'') = Inl ''Permission denied'' \<and>
   find_patterns_in_file example_read (''/repo/'' @ ''app/b.tsx'') con0 =
     ([], con0\<lparr>stdout := stdout con0 @
        [''Error reading '' @ ''/repo/'' @ ''app/b.tsx'' @ '': '' @ ''Permission denied'']\<rparr>) \<and>
   fst (walk ''/repo/'' example_read ([] @ ''app/b.tsx'' # [''app/dist/c.tsx'', ''app/a.tsx''])
          ([], 0, con0)) =
     fst (walk ''/repo/'' example_read ([] @ [''app/dist/c.tsx'', ''app/a.tsx'']) ([], 0, con0)) \<and>
   fst (walk ''/repo/'' example_read [''app/dist/c.tsx'', ''app/a.tsx''] ([], 0, con0)) =
     [(''bg-*-50 (use -100)'',
        [(''app/a.tsx'', [\<lparr>m_line = 1, m_match = ''bg-x-50/'',
            m_context = ''dark:bg-blue-900/50 bg-x-50/''\<rparr>])]),
      (''dark:bg-*-N/opacity'',
        [(''app/a.tsx'', [\<lparr>m_line = 1, m_match = ''dark:bg-blue-900/50'',
            m_context = ''dark:bg-blue-900/50 bg-x-50/''\<rparr>])])]"
proof -
  have h: "example_read (''/repo/'' @ ''app/b.tsx'') = Inl ''Permission denied''"
    by (simp add: example_read_def)
  note t = read_failure_isolated [where read_text = example_read and root = "''/repo/''"
      and rel_path = "''app/b.tsx''" and e = "''Permission denied''", OF h,
      where con = con0 and before = "[]" and after = "[''app/dist/c.tsx'', ''app/a.tsx'']"
      and a = "[]" and t = 0 and c = con0]
  note c1 = t [THEN conjunct1]
  note c3 = t [THEN conjunct2, THEN conjunct2, THEN conjunct1]
  have e: "fst (walk ''/repo/'' example_read [''app/dist/c.tsx'', ''app/a.tsx''] ([], 0, con0)) =
     [(''bg-*-50 (use -100)'',
        [(''app/a.tsx'', [\<lparr>m_line = 1, m_match = ''bg-x-50/'',
            m_context = ''dark:bg-blue-900/50 bg-x-50/''\<rparr>])]),
      (''dark:bg-*-N/opacity'',
        [(''app/a.tsx'', [\<lparr>m_line = 1, m_match = ''dark:bg-blue-900/50'',
            m_context = ''dark:bg-blue-900/50 bg-x-50/''\<rparr>])])]"
    by code_simp
  show ?thesis by (intro conjI h c1 c3 e)
qed



subsection \<open>The total and the output streams\<close>

lemma aggregate_count_simps:
  "aggregate_count [] = 0"
  "aggregate_count ((n, files) # a) = match_count files + aggregate_count a"
  by (simp_all add: aggregate_count_def match_count_def)

lemma match_count_simps:
  "match_count [] = 0"
  "match_count ((f, ms) # files) = length ms + match_count files"
  by (simp_all add: match_count_def)

lemma match_count_dict_set:
  "rel \<notin> set (map fst inner) \<Longrightarrow>
   match_count (dict_set rel ms inner) = match_count inner + length ms"
  by (induction rel ms inner rule: dict_set.induct) (simp_all add: match_count_simps)

lemma aggregate_count_dict_set:
  "aggregate_count (dict_set k v a) + match_count (dict_get_default a k) =
     aggregate_count a + match_count v"
  by (induction k v a rule: dict_set.induct)
     (simp_all add: aggregate_count_simps match_count_simps dict_get_default_def)

lemma aggregate_count_store:
  assumes "rel \<notin> set (map fst (dict_get_default a n))"
  shows "aggregate_count (dict_set n (dict_set rel ms (dict_get_default a n)) a) =
     aggregate_count a + length ms"
  using aggregate_count_dict_set [of n "dict_set rel ms (dict_get_default a n)" a]
    match_count_dict_set [OF assms, of ms]
  by simp

lemma merge_count:
  "distinct (map fst rs) \<Longrightarrow>
   (\<And>n. n \<in> set (map fst rs) \<Longrightarrow> rel \<notin> set (map fst (dict_get_default a n))) \<Longrightarrow>
   t = aggregate_count a \<Longrightarrow>
   snd (merge_results rel rs (a, t)) = aggregate_count (fst (merge_results rel rs (a, t)))"
proof (induction rs arbitrary: a t)
  case Nil
  then show ?case by simp
next
  case (Cons r rs)
  obtain n ms where r: "r = (n, ms)" by (cases r)
  let ?a = "dict_set n (dict_set rel ms (dict_get_default a n)) a"
  from Cons.prems(1) r have d: "distinct (map fst rs)" and nn: "n \<notin> set (map fst rs)"
    by simp_all
  have fresh: "rel \<notin> set (map fst (dict_get_default a n))"
    by (rule Cons.prems(2)) (simp add: r)
  have k: "rel \<notin> set (map fst (dict_get_default ?a n'))" if "n' \<in> set (map fst rs)" for n'
  proof -
    from that nn have "n' \<noteq> n" by auto
    moreover have "rel \<notin> set (map fst (dict_get_default a n'))"
      by (rule Cons.prems(2)) (use that in simp)
    ultimately show ?thesis by (simp add: get_dict_set)
  qed
  have t: "t + length ms = aggregate_count ?a"
    by (simp add: aggregate_count_store [OF fresh] Cons.prems(3))
  from Cons.IH [OF d k t] show ?case by (simp add: r)
qed

lemma walk_count:
  "distinct xs \<Longrightarrow>
   (\<And>x n. x \<in> set xs \<Longrightarrow> x \<notin> set (map fst (dict_get_default a n))) \<Longrightarrow>
   t = aggregate_count a \<Longrightarrow>
   fst (snd (walk root read_text xs (a, t, c))) =
     aggregate_count (fst (walk root read_text xs (a, t, c)))"
proof (induction xs arbitrary: a t c)
  case Nil
  then show ?case by simp
next
  case (Cons y ys)
  from Cons.prems(1) have d: "distinct ys" and yn: "y \<notin> set ys" by simp_all
  have keep: "x \<notin> set (map fst (dict_get_default a n))" if "x \<in> set ys" for x n
    by (rule Cons.prems(2)) (use that in simp)
  note same = Cons.IH [OF d keep Cons.prems(3)]
  show ?case
  proof (cases "should_ignore (root @ y)")
    case True
    then show ?thesis using same [of c] by simp
  next
    case False
    show ?thesis
    proof (cases "read_text (root @ y)")
      case (Inl e)
      show ?thesis
        using same [of "print (''Error reading '' @ root @ y @ '': '' @ e) c"]
        by (simp only: walk_failed [where root = root and rel = y and read_text = read_text, OF False Inl])
    next
      case (Inr content)
      let ?rs = "scan_lines 1 (split_lines content) []"
      note w = walk_read [where root = root and rel = y and read_text = read_text, OF False Inr]
      show ?thesis
      proof (cases "?rs = []")
        case True
        then show ?thesis using same [of c] by (simp add: w del: walk.simps)
      next
        case ne: False
        let ?a = "fst (merge_results y ?rs (a, t))"
        let ?t = "snd (merge_results y ?rs (a, t))"
        have dr: "distinct (map fst ?rs)"
          by (rule distinct_scan_lines) simp
        have fresh: "y \<notin> set (map fst (dict_get_default a n))" for n
          by (rule Cons.prems(2)) simp
        have t: "?t = aggregate_count ?a"
          by (rule merge_count [OF dr fresh Cons.prems(3)])
        have k: "x \<notin> set (map fst (dict_get_default ?a n))" if "x \<in> set ys" for x n
        proof
          assume "x \<in> set (map fst (dict_get_default ?a n))"
          from merge_file_keys [OF this] keep [OF that, of n] that yn show False by auto
        qed
        from Cons.IH [OF d k t, of c] ne show ?thesis by (simp add: w del: walk.simps)
      qed
    qed
  qed
qed

lemma main_stdout:
  "stdout (main root read_text tsx_files) =
     header_lines @ error_lines root read_text tsx_files @
     report_lines (fst (walk root read_text tsx_files ([], 0, con0))) @
     summary_lines (fst (walk root read_text tsx_files ([], 0, con0)))
       (fst (snd (walk root read_text tsx_files ([], 0, con0))))"
proof -
  let ?c = "prints header_lines \<lparr>stdout = [], stderr = []\<rparr>"
  obtain a t c where w: "walk root read_text tsx_files ([], 0, ?c) = (a, t, c)"
    by (cases "walk root read_text tsx_files ([], 0, ?c)")
  from walk_console [of root read_text tsx_files "[]" 0 ?c] w
  have c: "c = prints (error_lines root read_text tsx_files) ?c" by simp
  from walk_data_indep [of root read_text tsx_files "[]" 0 ?c con0] w
  have a: "fst (walk root read_text tsx_files ([], 0, con0)) = a"
    and t: "fst (snd (walk root read_text tsx_files ([], 0, con0))) = t" by simp_all
  show ?thesis
    by (simp add: main_def w a t c stdout_prints)
qed

lemma main_stderr: "stderr (main root read_text tsx_files) = []"
proof -
  let ?c = "prints header_lines \<lparr>stdout = [], stderr = []\<rparr>"
  obtain a t c where w: "walk root read_text tsx_files ([], 0, ?c) = (a, t, c)"
    by (cases "walk root read_text tsx_files ([], 0, ?c)")
  from walk_console [of root read_text tsx_files "[]" 0 ?c] w
  have c: "c = prints (error_lines root read_text tsx_files) ?c" by simp
  show ?thesis
    by (simp add: main_def w c stderr_prints)
qed


text \<open>
  C7. When the traversal yields every file once, the total that the walk counts, and
  that the summary prints after \<^verbatim>\<open>Total issues found:\<close>, is the number of matches held
  by the aggregate, summed over all rules and all files.
\<close>

theorem total_is_sum_of_matches:
  assumes "distinct tsx_files"
  shows
   "fst (snd (walk root read_text tsx_files ([], 0, c))) =
      sum_list (map (\<lambda>(name, files).
        sum_list (map (\<lambda>(filepath, matches). length matches) files))
        (fst (walk root read_text tsx_files ([], 0, c)))) \<and>
    ''Total issues found: '' @
      str_nat (sum_list (map (\<lambda>(name, files).
        sum_list (map (\<lambda>(filepath, matches). length matches) files))
        (fst (walk root read_text tsx_files ([], 0, con0)))))
      \<in> set (stdout (main root read_text tsx_files))"
proof -
  have w: "fst (snd (walk root read_text tsx_files ([], 0, c'))) =
      aggregate_count (fst (walk root read_text tsx_files ([], 0, c')))" for c'
    by (rule walk_count [OF assms]) (simp_all add: get_default_Nil aggregate_count_simps)
  have "''Total issues found: '' @
      str_nat (fst (snd (walk root read_text tsx_files ([], 0, con0))))
      \<in> set (stdout (main root read_text tsx_files))"
    by (simp add: main_stdout summary_lines_def)
  with w [of c] w [of con0] show ?thesis
    by (simp only: aggregate_count_def)
qed

theorem total_is_sum_of_matches_witness:
  "distinct example_files \<and>
   fst (snd (walk ''/repo/'' example_read example_files ([], 0, con0))) = 2 \<and>
   sum_list (map (\<lambda>(name, files).
        sum_list (map (\<lambda>(filepath, matches). length matches) files))
        (fst (walk ''/repo/'' example_read example_files ([], 0, con0)))) = 2 \<and>
   ''Total issues found: '' @
      str_nat (sum_list (map (\<lambda>(name, files).
        sum_list (map (\<lambda>(filepath, matches). length matches) files))
        (fst (walk ''/repo/'' example_read example_files ([], 0, con0)))))
      \<in> set (stdout (main ''/repo/'' example_read example_files))"
proof -
  have h: "distinct example_files"
    by (simp add: example_files_def)
  have e: "fst (snd (walk ''/repo/'' example_read example_files ([], 0, con0))) = 2"
    by code_simp
  note t = total_is_sum_of_matches [OF h, where root = "''/repo/''" and read_text = example_read
      and c = con0]
  note c1 = t [THEN conjunct1]
  note c2 = t [THEN conjunct2]
  from c1 e have s: "sum_list (map (\<lambda>(name, files).
        sum_list (map (\<lambda>(filepath, matches). length matches) files))
        (fst (walk ''/repo/'' example_read example_files ([], 0, con0)))) = 2"
    by (simp only:)
  show ?thesis by (intro conjI h e s c2)
qed

text \<open>
  C4, as the code has it. \<^verbatim>\<open>print\<close> is never given a \<^verbatim>\<open>file\<close> argument: the error
  line of the example tree is on standard output, and standard error stays empty.
\<close>

theorem error_line_on_stdout_counterexample:
  "''Error reading /repo/app/b.tsx: Permission denied''
     \<in> set (stdout (main ''/repo/'' example_read example_files)) \<and>
   ''Error reading /repo/app/b.tsx: Permission denied''
     \<notin> set (stderr (main ''/repo/'' example_read example_files))"
proof -
  have "error_lines ''/repo/'' example_read example_files =
     [''Error reading /repo/app/b.tsx: Permission denied'']"
    by code_simp
  then show ?thesis
    by (simp only: main_stdout main_stderr set_append set_simps insertI1 UnI1 UnI2
        empty_iff not_False_eq_True simp_thms)
qed

text \<open>
  C4, amended. The report and every read-failure line are written to standard output,
  and nothing is written to standard error: standard output is the header, then one
  error line for each file that is not excluded and cannot be read, in traversal
  order, then the sections of the report and the summary.
\<close>

theorem everything_on_stdout:
  "stderr (main root read_text tsx_files) = [] \<and>
   stdout (main root read_text tsx_files) =
     header_lines @ error_lines root read_text tsx_files @
     report_lines (fst (walk root read_text tsx_files ([], 0, con0))) @
     summary_lines (fst (walk root read_text tsx_files ([], 0, con0)))
       (fst (snd (walk root read_text tsx_files ([], 0, con0))))"
  by (intro conjI main_stderr main_stdout)

theorem everything_on_stdout_witness:
  "stderr (main ''/repo/'' example_read example_files) = [] \<and>
   error_lines ''/repo/'' example_read example_files =
     [''Error reading /repo/app/b.tsx: Permission denied''] \<and>
   stdout (main ''/repo/'' example_read example_files) =
     header_lines @ error_lines ''/repo/'' example_read example_files @
     report_lines (fst (walk ''/repo/'' example_read example_files ([], 0, con0))) @
     summary_lines (fst (walk ''/repo/'' example_read example_files ([], 0, con0)))
       (fst (snd (walk ''/repo/'' example_read example_files ([], 0, con0))))"
proof -
  note t = everything_on_stdout [of "''/repo/''" example_read example_files]
  have e: "error_lines ''/repo/'' example_read example_files =
     [''Error reading /repo/app/b.tsx: Permission denied'']"
    by code_simp
  show ?thesis by (intro conjI t [THEN conjunct1] e t [THEN conjunct2])
qed

subsection \<open>The report\<close>
























end
